theory Spec2Isabelle
  imports Main "HOL-Library.Word"
begin

unbundle bit_operations_syntax

section \<open>SHA-256 reference implementation (sha256\_reference.py)\<close>

text \<open>
  The module has three functions: \<^verbatim>\<open>_rightrotate\<close>, \<^verbatim>\<open>_sha256\<close> and \<^verbatim>\<open>sha256\<close>.
  Python integers are unbounded, so every word is an \<open>int\<close> and the masks
  \<^verbatim>\<open>& 0xffffffff\<close> of the source are written out.  A byte of a \<^verbatim>\<open>bytes\<close> or
  \<^verbatim>\<open>bytearray\<close> object is an \<open>8 word\<close>.  The leading underscore of the two private
  names is not an Isabelle identifier: \<^verbatim>\<open>_rightrotate\<close> is \<open>rightrotate\<close> and
  \<^verbatim>\<open>_sha256\<close> is \<open>sha256_impl\<close>.
\<close>

subsection \<open>Data\<close>

type_synonym byte = "8 word"

text \<open>
  The argument \<^verbatim>\<open>data\<close> is a \<^verbatim>\<open>bytes\<close> object or a \<^verbatim>\<open>str\<close> (a sequence of Unicode
  code points, which line 44 encodes as UTF-8).
\<close>

datatype data = Bytes "byte list" | Str "nat list"

text \<open>
  The exceptions the body can raise: \<^verbatim>\<open>str.encode\<close> on a lone surrogate,
  \<^verbatim>\<open>struct.pack\<close> and \<^verbatim>\<open>struct.unpack\<close> on an argument out of range or of the wrong
  size, the unpacking assignment of line 72 on a list that has not eight elements, and a
  subscript \<^verbatim>\<open>xs[i]\<close> on an index out of range.
\<close>

datatype error = UnicodeEncodeError | StructError | ValueError | IndexError

text \<open>
  The local variables of \<^verbatim>\<open>_sha256\<close> that live longer than one loop iteration.  The lists
  \<open>K\<close>, \<open>h\<close>, \<open>msg\<close> and \<open>w\<close> are mutable Python objects; the body threads the frame
  through every statement.  A function that takes a frame receives the contents of the
  local slots as they are when its first statement runs.
\<close>

record frame =
  K :: "int list"
  h :: "int list"
  msg_len :: int
  msg :: "byte list"
  w :: "int list"
  a :: int
  b :: int
  c :: int
  d :: int
  e :: int
  f :: int
  g :: int
  h_val :: int

text \<open>A frame whose slots hold nothing of interest, for running the body on concrete inputs.\<close>

definition frame0 :: frame where
  "frame0 = \<lparr>K = [], h = [], msg_len = 0, msg = [], w = [],
     a = 0, b = 0, c = 0, d = 0, e = 0, f = 0, g = 0, h_val = 0\<rparr>"

subsection \<open>Lines 14--16: \<^verbatim>\<open>_rightrotate\<close>\<close>

text \<open>
  \<^verbatim>\<open>return ((n >> b) | (n << (32 - b))) & 0xffffffff\<close>.  Every call passes a literal
  between 2 and 25 as the shift, so \<open>32 - k\<close> is never negative.
\<close>

definition rightrotate :: "int \<Rightarrow> nat \<Rightarrow> int" where
  "rightrotate n k = (drop_bit k n OR push_bit (32 - k) n) AND 0xffffffff"

subsection \<open>Lines 25--40: the constant lists\<close>

text \<open>
  The lists \<^verbatim>\<open>K\<close> and \<^verbatim>\<open>h\<close> as the source assigns them; the 64 literals of
  \<^verbatim>\<open>K\<close> are in the order of the source, eight to a line, their hexadecimal digits
  in upper case.
\<close>

definition K_table :: "int list" where
  "K_table = [
    0x428A2F98, 0x71374491, 0xB5C0FBCF, 0xE9B5DBA5, 0x3956C25B, 0x59F111F1, 0x923F82A4, 0xAB1C5ED5,
    0xD807AA98, 0x12835B01, 0x243185BE, 0x550C7DC3, 0x72BE5D74, 0x80DEB1FE, 0x9BDC06A7, 0xC19BF174,
    0xE49B69C1, 0xEFBE4786, 0x0FC19DC6, 0x240CA1CC, 0x2DE92C6F, 0x4A7484AA, 0x5CB0A9DC, 0x76F988DA,
    0x983E5152, 0xA831C66D, 0xB00327C8, 0xBF597FC7, 0xC6E00BF3, 0xD5A79147, 0x06CA6351, 0x14292967,
    0x27B70A85, 0x2E1B2138, 0x4D2C6DFC, 0x53380D13, 0x650A7354, 0x766A0ABB, 0x81C2C92E, 0x92722C85,
    0xA2BFE8A1, 0xA81A664B, 0xC24B8B70, 0xC76C51A3, 0xD192E819, 0xD6990624, 0xF40E3585, 0x106AA070,
    0x19A4C116, 0x1E376C08, 0x2748774C, 0x34B0BCB5, 0x391C0CB3, 0x4ED8AA4A, 0x5B9CCA4F, 0x682E6FF3,
    0x748F82EE, 0x78A5636F, 0x84C87814, 0x8CC70208, 0x90BEFFFA, 0xA4506CEB, 0xBEF9A3F7, 0xC67178F2]"

definition h_init :: "int list" where
  "h_init = [
    0x6a09e667, 0xbb67ae85, 0x3c6ef372, 0xa54ff53a,
    0x510e527f, 0x9b05688c, 0x1f83d9ab, 0x5be0cd19]"

subsection \<open>Lines 43--44: \<^verbatim>\<open>data.encode('utf-8')\<close>\<close>

text \<open>
  UTF-8 of one code point; a surrogate (U+D800 to U+DFFF) raises.  A Python string holds
  no code point above U+10FFFF.
\<close>

fun utf8_char :: "nat \<Rightarrow> error + byte list" where
  "utf8_char n =
     (if n < 0x80 then Inr [of_nat n]
      else if n < 0x800 then Inr [of_nat (0xC0 + n div 64), of_nat (0x80 + n mod 64)]
      else if 0xD800 \<le> n \<and> n < 0xE000 then Inl UnicodeEncodeError
      else if n < 0x10000 then
        Inr [of_nat (0xE0 + n div 4096), of_nat (0x80 + n div 64 mod 64), of_nat (0x80 + n mod 64)]
      else
        Inr [of_nat (0xF0 + n div 262144), of_nat (0x80 + n div 4096 mod 64),
             of_nat (0x80 + n div 64 mod 64), of_nat (0x80 + n mod 64)])"

fun encode_utf8 :: "nat list \<Rightarrow> error + byte list" where
  "encode_utf8 [] = Inr []"
| "encode_utf8 (n # ns) =
     (case utf8_char n of
        Inl err \<Rightarrow> Inl err
      | Inr bs \<Rightarrow> (case encode_utf8 ns of Inl err \<Rightarrow> Inl err | Inr rest \<Rightarrow> Inr (bs @ rest)))"

subsection \<open>Lines 46--56: padding\<close>

text \<open>
  The number of iterations the loop of lines 52--53 still has to make when the message
  has \<open>n\<close> bytes; it is the measure of the loop's termination.
\<close>

definition pad_dist :: "nat \<Rightarrow> nat" where
  "pad_dist n = (if n mod 64 \<le> 56 then 56 - n mod 64 else 120 - n mod 64)"

text \<open>\<^verbatim>\<open>while (len(msg) * 8) % 512 != 448: msg.append(0x00)\<close>\<close>

function pad_zeros :: "byte list \<Rightarrow> byte list" where
  "pad_zeros m = (if (length m * 8) mod 512 \<noteq> 448 then pad_zeros (m @ [0x00]) else m)"
  by pat_completeness auto
termination
proof (relation "measure (\<lambda>m. pad_dist (length m))")
  show "wf (measure (\<lambda>m. pad_dist (length m)))" by simp
next
  fix m :: "byte list"
  assume go: "length m * 8 mod 512 \<noteq> 448"
  have "(length m * 8) mod (64 * 8) = (length m mod 64) * 8"
    by (rule mod_mult_mult2)
  with go have ne: "length m mod 64 \<noteq> 56" by auto
  have step: "\<And>r::nat. r < 64 \<Longrightarrow> r \<noteq> 56 \<Longrightarrow>
      (if (if Suc r = 64 then 0 else Suc r) \<le> 56 then 56 - (if Suc r = 64 then 0 else Suc r)
       else 120 - (if Suc r = 64 then 0 else Suc r))
      < (if r \<le> 56 then 56 - r else 120 - r)"
    by (simp split: if_splits) arith
  have "pad_dist (Suc (length m)) < pad_dist (length m)"
    unfolding pad_dist_def mod_Suc using ne by (intro step) simp_all
  then show "(m @ [0x00], m) \<in> measure (\<lambda>m. pad_dist (length m))" by simp
qed

declare pad_zeros.simps [simp del]

text \<open>
  \<^verbatim>\<open>struct.pack('>Q', n)\<close>: the eight bytes of \<open>n\<close>, most significant first;
  \<^verbatim>\<open>struct.error\<close> when \<open>n\<close> is not in the range of an unsigned 64-bit integer.
\<close>

definition pack_Q :: "int \<Rightarrow> error + byte list" where
  "pack_Q n =
     (if 0 \<le> n \<and> n < 2 ^ 64
      then Inr (map (\<lambda>k. word_of_int (drop_bit (8 * k) n)) [7, 6, 5, 4, 3, 2, 1, 0])
      else Inl StructError)"

text \<open>Lines 47--56, from \<^verbatim>\<open>msg_len = len(data) * 8\<close> to \<^verbatim>\<open>msg.extend(...)\<close>.\<close>

definition padding :: "byte list \<Rightarrow> frame \<Rightarrow> error + frame" where
  "padding bs fr =
     (let fr = fr\<lparr>msg_len := int (length bs) * 8\<rparr>;
          fr = fr\<lparr>msg := bs\<rparr>;
          fr = fr\<lparr>msg := msg fr @ [0x80]\<rparr>;
          fr = fr\<lparr>msg := pad_zeros (msg fr)\<rparr>
      in case pack_Q (msg_len fr) of
           Inl err \<Rightarrow> Inl err
         | Inr lenb \<Rightarrow> Inr (fr\<lparr>msg := msg fr @ lenb\<rparr>))"

subsection \<open>Lines 62--69: the message schedule\<close>

text \<open>
  \<^verbatim>\<open>struct.unpack('>16I', chunk)\<close>: sixteen big-endian 32-bit unsigned integers;
  \<^verbatim>\<open>struct.error\<close> unless the buffer has exactly 64 bytes.
\<close>

fun be_words :: "byte list \<Rightarrow> int list" where
  "be_words (b0 # b1 # b2 # b3 # rest) =
     (uint b0 * 2 ^ 24 + uint b1 * 2 ^ 16 + uint b2 * 2 ^ 8 + uint b3) # be_words rest"
| "be_words _ = []"

definition unpack_16I :: "byte list \<Rightarrow> error + int list" where
  "unpack_16I chunk = (if length chunk = 64 then Inr (be_words chunk) else Inl StructError)"

text \<open>One iteration of the loop of lines 66--69.\<close>

definition extend_w :: "nat \<Rightarrow> frame \<Rightarrow> frame" where
  "extend_w i fr =
     (let s0 = rightrotate (w fr ! (i - 15)) 7 XOR rightrotate (w fr ! (i - 15)) 18
                 XOR drop_bit 3 (w fr ! (i - 15));
          s1 = rightrotate (w fr ! (i - 2)) 17 XOR rightrotate (w fr ! (i - 2)) 19
                 XOR drop_bit 10 (w fr ! (i - 2))
      in fr\<lparr>w := w fr @ [(w fr ! (i - 16) + s0 + w fr ! (i - 7) + s1) AND 0xffffffff]\<rparr>)"

text \<open>Lines 63--69: \<^verbatim>\<open>w = list(struct.unpack(...))\<close> and \<^verbatim>\<open>for i in range(16, 64)\<close>.\<close>

definition message_schedule :: "byte list \<Rightarrow> frame \<Rightarrow> error + frame" where
  "message_schedule chunk fr =
     (case unpack_16I chunk of
        Inl err \<Rightarrow> Inl err
      | Inr ws \<Rightarrow> Inr (fold extend_w [16..<64] (fr\<lparr>w := ws\<rparr>)))"

subsection \<open>Lines 71--100: compression of one chunk\<close>

text \<open>Line 72: \<^verbatim>\<open>a, b, c, d, e, f, g, h_val = h\<close>.\<close>

definition load_vars :: "frame \<Rightarrow> error + frame" where
  "load_vars fr =
     (case h fr of
        [x0, x1, x2, x3, x4, x5, x6, x7] \<Rightarrow>
          Inr (fr\<lparr>a := x0, b := x1, c := x2, d := x3, e := x4, f := x5, g := x6, h_val := x7\<rparr>)
      | _ \<Rightarrow> Inl ValueError)"

text \<open>One iteration of the loop of lines 75--90; the assignments are made in source order.\<close>

definition round_step :: "nat \<Rightarrow> frame \<Rightarrow> frame" where
  "round_step i fr =
     (let S1 = rightrotate (e fr) 6 XOR rightrotate (e fr) 11 XOR rightrotate (e fr) 25;
          ch = (e fr AND f fr) XOR (NOT (e fr) AND g fr);
          temp1 = (h_val fr + S1 + ch + K fr ! i + w fr ! i) AND 0xffffffff;
          S0 = rightrotate (a fr) 2 XOR rightrotate (a fr) 13 XOR rightrotate (a fr) 22;
          maj = (a fr AND b fr) XOR (a fr AND c fr) XOR (b fr AND c fr);
          temp2 = (S0 + maj) AND 0xffffffff;
          fr = fr\<lparr>h_val := g fr\<rparr>;
          fr = fr\<lparr>g := f fr\<rparr>;
          fr = fr\<lparr>f := e fr\<rparr>;
          fr = fr\<lparr>e := (d fr + temp1) AND 0xffffffff\<rparr>;
          fr = fr\<lparr>d := c fr\<rparr>;
          fr = fr\<lparr>c := b fr\<rparr>;
          fr = fr\<lparr>b := a fr\<rparr>;
          fr = fr\<lparr>a := (temp1 + temp2) AND 0xffffffff\<rparr>
      in fr)"

text \<open>Lines 93--100: \<^verbatim>\<open>h[0] = (h[0] + a) & 0xffffffff\<close> to \<^verbatim>\<open>h[7] = ...\<close>.\<close>

definition accumulate :: "frame \<Rightarrow> frame" where
  "accumulate fr =
     (let fr = fr\<lparr>h := (h fr)[0 := (h fr ! 0 + a fr) AND 0xffffffff]\<rparr>;
          fr = fr\<lparr>h := (h fr)[1 := (h fr ! 1 + b fr) AND 0xffffffff]\<rparr>;
          fr = fr\<lparr>h := (h fr)[2 := (h fr ! 2 + c fr) AND 0xffffffff]\<rparr>;
          fr = fr\<lparr>h := (h fr)[3 := (h fr ! 3 + d fr) AND 0xffffffff]\<rparr>;
          fr = fr\<lparr>h := (h fr)[4 := (h fr ! 4 + e fr) AND 0xffffffff]\<rparr>;
          fr = fr\<lparr>h := (h fr)[5 := (h fr ! 5 + f fr) AND 0xffffffff]\<rparr>;
          fr = fr\<lparr>h := (h fr)[6 := (h fr ! 6 + g fr) AND 0xffffffff]\<rparr>;
          fr = fr\<lparr>h := (h fr)[7 := (h fr ! 7 + h_val fr) AND 0xffffffff]\<rparr>
      in fr)"

text \<open>
  The body of the loop of line 59 for one value of \<^verbatim>\<open>chunk_start\<close>:
  \<^verbatim>\<open>chunk = msg[chunk_start:chunk_start + 64]\<close>, the schedule, the 64 rounds and the
  accumulation.
\<close>

definition process_chunk :: "nat \<Rightarrow> frame \<Rightarrow> error + frame" where
  "process_chunk chunk_start fr =
     (let chunk = take 64 (drop chunk_start (msg fr)) in
      case message_schedule chunk fr of
        Inl err \<Rightarrow> Inl err
      | Inr fr \<Rightarrow>
          (case load_vars fr of
             Inl err \<Rightarrow> Inl err
           | Inr fr \<Rightarrow> Inr (accumulate (fold round_step [0..<64] fr))))"

subsection \<open>Lines 58--103: the loop over the chunks and the result\<close>

text \<open>\<^verbatim>\<open>range(0, n, s)\<close> for a positive step \<open>s\<close>.\<close>

definition range_step :: "nat \<Rightarrow> nat \<Rightarrow> nat list" where
  "range_step n s = map (\<lambda>k. k * s) [0..<(n + s - 1) div s]"

fun chunk_loop :: "nat list \<Rightarrow> frame \<Rightarrow> error + frame" where
  "chunk_loop [] fr = Inr fr"
| "chunk_loop (chunk_start # rest) fr =
     (case process_chunk chunk_start fr of
        Inl err \<Rightarrow> Inl err
      | Inr fr' \<Rightarrow> chunk_loop rest fr')"

text \<open>Lines 24--100: everything before the \<^verbatim>\<open>return\<close>.\<close>

definition hash_state :: "data \<Rightarrow> frame \<Rightarrow> error + frame" where
  "hash_state dat fr =
     (let fr = fr\<lparr>K := K_table\<rparr>;
          fr = fr\<lparr>h := h_init\<rparr>
      in case (case dat of Str s \<Rightarrow> encode_utf8 s | Bytes bs \<Rightarrow> Inr bs) of
           Inl err \<Rightarrow> Inl err
         | Inr bs \<Rightarrow>
             (case padding bs fr of
                Inl err \<Rightarrow> Inl err
              | Inr fr \<Rightarrow> chunk_loop (range_step (length (msg fr)) 64) fr))"

text \<open>
  The format \<^verbatim>\<open>f'{x:08x}'\<close>: lowercase hexadecimal digits, padded with zeros to at least
  eight characters; a negative number has its sign first and the padding after it.
\<close>

definition hexdigit :: "int \<Rightarrow> char" where
  "hexdigit n = ''0123456789abcdef'' ! nat n"

function hex_digits :: "int \<Rightarrow> string" where
  "hex_digits n = (if n < 16 then [hexdigit n] else hex_digits (n div 16) @ [hexdigit (n mod 16)])"
  by pat_completeness auto
termination
  by (relation "measure nat") auto

declare hex_digits.simps [simp del]

definition zfill :: "nat \<Rightarrow> string \<Rightarrow> string" where
  "zfill n s = replicate (n - length s) CHR ''0'' @ s"

definition fmt_08x :: "int \<Rightarrow> string" where
  "fmt_08x x =
     (if x < 0 then CHR ''-'' # zfill 7 (hex_digits (- x)) else zfill 8 (hex_digits x))"

text \<open>Lines 19--103: \<^verbatim>\<open>_sha256\<close>, whose last line is \<^verbatim>\<open>return ''.join(f'{x:08x}' for x in h)\<close>.\<close>

definition sha256_impl :: "data \<Rightarrow> frame \<Rightarrow> error + string" where
  "sha256_impl dat fr =
     (case hash_state dat fr of
        Inl err \<Rightarrow> Inl err
      | Inr fr \<Rightarrow> Inr (concat (map fmt_08x (h fr))))"

text \<open>Lines 106--108: \<^verbatim>\<open>sha256\<close> returns what \<^verbatim>\<open>_sha256\<close> returns.\<close>

definition sha256 :: "data \<Rightarrow> frame \<Rightarrow> error + string" where
  "sha256 dat fr = sha256_impl dat fr"

subsection \<open>Lines 19--108 with every subscript checked\<close>

text \<open>
  The definitions above read and write list elements with the total \<open>!\<close> and
  \<open>[i := v]\<close> of HOL.  In the source a subscript raises \<^verbatim>\<open>IndexError\<close> when the index is
  out of range, and a negative index counts from the end of the list.  The definitions
  of this subsection follow the same lines with that written out, so that every
  \<^verbatim>\<open>w[...]\<close>, \<^verbatim>\<open>K[i]\<close> and \<^verbatim>\<open>h[j]\<close> is a branch that can raise.
\<close>

text \<open>The expression \<^verbatim>\<open>xs[i]\<close>.\<close>

definition subscript :: "'a list \<Rightarrow> int \<Rightarrow> error + 'a" where
  "subscript xs i =
     (if 0 \<le> i \<and> i < int (length xs) then Inr (xs ! nat i)
      else if - int (length xs) \<le> i \<and> i < 0 then Inr (xs ! nat (int (length xs) + i))
      else Inl IndexError)"

text \<open>The assignment \<^verbatim>\<open>xs[i] = v\<close>.\<close>

definition store_item :: "'a list \<Rightarrow> int \<Rightarrow> 'a \<Rightarrow> error + 'a list" where
  "store_item xs i v =
     (if 0 \<le> i \<and> i < int (length xs) then Inr (xs[nat i := v])
      else if - int (length xs) \<le> i \<and> i < 0 then Inr (xs[nat (int (length xs) + i) := v])
      else Inl IndexError)"

text \<open>
  Sequencing: an exception raised by the first part ends the computation, otherwise the
  rest runs on the value.
\<close>

definition and_then :: "error + 'a \<Rightarrow> ('a \<Rightarrow> error + 'b) \<Rightarrow> error + 'b" where
  "and_then r rest = (case r of Inl err \<Rightarrow> Inl err | Inr x \<Rightarrow> rest x)"

text \<open>A \<^verbatim>\<open>for\<close> loop over a list of indices whose body can raise.\<close>

fun for_each :: "(nat \<Rightarrow> frame \<Rightarrow> error + frame) \<Rightarrow> nat list \<Rightarrow> frame \<Rightarrow> error + frame" where
  "for_each body [] fr = Inr fr"
| "for_each body (i # rest) fr =
     (case body i fr of
        Inl err \<Rightarrow> Inl err
      | Inr fr' \<Rightarrow> for_each body rest fr')"

text \<open>
  Lines 67--69, one iteration: the subscripts \<^verbatim>\<open>w[i-15]\<close>, \<^verbatim>\<open>w[i-2]\<close>, \<^verbatim>\<open>w[i-16]\<close> and
  \<^verbatim>\<open>w[i-7]\<close> in the order in which the source evaluates them.
\<close>

definition extend_w_checked :: "nat \<Rightarrow> frame \<Rightarrow> error + frame" where
  "extend_w_checked i fr =
     and_then (subscript (w fr) (int i - 15)) (\<lambda>w15.
     and_then (subscript (w fr) (int i - 2)) (\<lambda>w2.
     and_then (subscript (w fr) (int i - 16)) (\<lambda>w16.
     and_then (subscript (w fr) (int i - 7)) (\<lambda>w7.
       (let s0 = rightrotate w15 7 XOR rightrotate w15 18 XOR drop_bit 3 w15;
            s1 = rightrotate w2 17 XOR rightrotate w2 19 XOR drop_bit 10 w2
        in Inr (fr\<lparr>w := w fr @ [(w16 + s0 + w7 + s1) AND 0xffffffff]\<rparr>))))))"

text \<open>Lines 63--69.\<close>

definition message_schedule_checked :: "byte list \<Rightarrow> frame \<Rightarrow> error + frame" where
  "message_schedule_checked chunk fr =
     (case unpack_16I chunk of
        Inl err \<Rightarrow> Inl err
      | Inr ws \<Rightarrow> for_each extend_w_checked [16..<64] (fr\<lparr>w := ws\<rparr>))"

text \<open>Lines 76--90, one iteration: the subscripts are \<^verbatim>\<open>K[i]\<close> and \<^verbatim>\<open>w[i]\<close> of line 78.\<close>

definition round_step_checked :: "nat \<Rightarrow> frame \<Rightarrow> error + frame" where
  "round_step_checked i fr =
     (let S1 = rightrotate (e fr) 6 XOR rightrotate (e fr) 11 XOR rightrotate (e fr) 25;
          ch = (e fr AND f fr) XOR (NOT (e fr) AND g fr)
      in and_then (subscript (K fr) (int i)) (\<lambda>K_i.
         and_then (subscript (w fr) (int i)) (\<lambda>w_i.
           (let temp1 = (h_val fr + S1 + ch + K_i + w_i) AND 0xffffffff;
                S0 = rightrotate (a fr) 2 XOR rightrotate (a fr) 13 XOR rightrotate (a fr) 22;
                maj = (a fr AND b fr) XOR (a fr AND c fr) XOR (b fr AND c fr);
                temp2 = (S0 + maj) AND 0xffffffff;
                fr = fr\<lparr>h_val := g fr\<rparr>;
                fr = fr\<lparr>g := f fr\<rparr>;
                fr = fr\<lparr>f := e fr\<rparr>;
                fr = fr\<lparr>e := (d fr + temp1) AND 0xffffffff\<rparr>;
                fr = fr\<lparr>d := c fr\<rparr>;
                fr = fr\<lparr>c := b fr\<rparr>;
                fr = fr\<lparr>b := a fr\<rparr>;
                fr = fr\<lparr>a := (temp1 + temp2) AND 0xffffffff\<rparr>
            in Inr fr))))"

text \<open>
  One of the lines 93--100, \<^verbatim>\<open>h[j] = (h[j] + v) & 0xffffffff\<close>: the element is read, then
  assigned.
\<close>

definition add_to_h :: "nat \<Rightarrow> int \<Rightarrow> frame \<Rightarrow> error + frame" where
  "add_to_h j v fr =
     and_then (subscript (h fr) (int j)) (\<lambda>h_j.
     and_then (store_item (h fr) (int j) ((h_j + v) AND 0xffffffff)) (\<lambda>hs.
       Inr (fr\<lparr>h := hs\<rparr>)))"

text \<open>Lines 93--100.\<close>

definition accumulate_checked :: "frame \<Rightarrow> error + frame" where
  "accumulate_checked fr =
     and_then (add_to_h 0 (a fr) fr) (\<lambda>fr.
     and_then (add_to_h 1 (b fr) fr) (\<lambda>fr.
     and_then (add_to_h 2 (c fr) fr) (\<lambda>fr.
     and_then (add_to_h 3 (d fr) fr) (\<lambda>fr.
     and_then (add_to_h 4 (e fr) fr) (\<lambda>fr.
     and_then (add_to_h 5 (f fr) fr) (\<lambda>fr.
     and_then (add_to_h 6 (g fr) fr) (\<lambda>fr.
     add_to_h 7 (h_val fr) fr)))))))"

text \<open>Lines 60--100: the body of the loop of line 59.\<close>

definition process_chunk_checked :: "nat \<Rightarrow> frame \<Rightarrow> error + frame" where
  "process_chunk_checked chunk_start fr =
     (let chunk = take 64 (drop chunk_start (msg fr)) in
      and_then (message_schedule_checked chunk fr) (\<lambda>fr.
      and_then (load_vars fr) (\<lambda>fr.
      and_then (for_each round_step_checked [0..<64] fr) (\<lambda>fr.
      accumulate_checked fr))))"

text \<open>Lines 24--100.\<close>

definition hash_state_checked :: "data \<Rightarrow> frame \<Rightarrow> error + frame" where
  "hash_state_checked dat fr =
     (let fr = fr\<lparr>K := K_table\<rparr>;
          fr = fr\<lparr>h := h_init\<rparr>
      in and_then (case dat of Str s \<Rightarrow> encode_utf8 s | Bytes bs \<Rightarrow> Inr bs) (\<lambda>bs.
         and_then (padding bs fr) (\<lambda>fr.
         for_each process_chunk_checked (range_step (length (msg fr)) 64) fr)))"

text \<open>Lines 19--103 and 106--108.\<close>

definition sha256_impl_checked :: "data \<Rightarrow> frame \<Rightarrow> error + string" where
  "sha256_impl_checked dat fr =
     and_then (hash_state_checked dat fr) (\<lambda>fr. Inr (concat (map fmt_08x (h fr))))"

definition sha256_checked :: "data \<Rightarrow> frame \<Rightarrow> error + string" where
  "sha256_checked dat fr = sha256_impl_checked dat fr"

subsection \<open>Notions of the specification\<close>

text \<open>
  The unsigned integer that a byte string denotes when its most significant byte comes
  first ("big-endian").
\<close>

definition be_decode :: "byte list \<Rightarrow> int" where
  "be_decode bs = foldl (\<lambda>acc x. acc * 256 + uint x) 0 bs"

text \<open>
  The specification's \<open>rotr(x, n)\<close>: the circular right rotation of a 32-bit word, here
  the one of the word library.
\<close>

definition spec_rotr :: "int \<Rightarrow> nat \<Rightarrow> int" where
  "spec_rotr x n = uint (word_rotr n (word_of_int x :: 32 word))"

text \<open>
  The specification's \<open>\<sigma>0\<close> and \<open>\<sigma>1\<close>; \<open>x >> n\<close> is \<open>drop_bit n x\<close>.
\<close>

definition spec_sigma0 :: "int \<Rightarrow> int" where
  "spec_sigma0 x = spec_rotr x 7 XOR spec_rotr x 18 XOR drop_bit 3 x"

definition spec_sigma1 :: "int \<Rightarrow> int" where
  "spec_sigma1 x = spec_rotr x 17 XOR spec_rotr x 19 XOR drop_bit 10 x"

text \<open>A list of 32-bit unsigned words: every element lies in \<open>0 .. 2^32 - 1\<close>.\<close>

definition words32 :: "int list \<Rightarrow> bool" where
  "words32 xs \<longleftrightarrow> (\<forall>x\<in>set xs. 0 \<le> x \<and> x < 2 ^ 32)"

text \<open>
  A word as eight lowercase hexadecimal digits, most significant first: digit \<open>k\<close>
  (counted from the right) is \<open>x div 16^k mod 16\<close>.
\<close>

definition hex8 :: "int \<Rightarrow> string" where
  "hex8 x = map (\<lambda>k. hexdigit (x div 16 ^ k mod 16)) [7, 6, 5, 4, 3, 2, 1, 0]"

text \<open>
  The specification's digest: the state words concatenated big-endian, four bytes each;
  and a byte as two lowercase hexadecimal digits.
\<close>

definition be_bytes32 :: "int \<Rightarrow> byte list" where
  "be_bytes32 x = map (\<lambda>k. word_of_int (drop_bit (8 * k) x)) [3, 2, 1, 0]"

definition digest_bytes :: "int list \<Rightarrow> byte list" where
  "digest_bytes ws = concat (map be_bytes32 ws)"

definition hex_byte :: "byte \<Rightarrow> string" where
  "hex_byte x = [hexdigit (uint x div 16), hexdigit (uint x mod 16)]"

subsection \<open>Auxiliary notions of the proofs\<close>

text \<open>
  Two frames agree when they differ at most in the slots that \<open>process_chunk\<close> assigns
  before it reads them: the schedule \<open>w\<close> and the eight working variables.
\<close>

definition agree :: "frame \<Rightarrow> frame \<Rightarrow> bool" where
  "agree fr1 fr2 \<longleftrightarrow>
     K fr1 = K fr2 \<and> h fr1 = h fr2 \<and> msg_len fr1 = msg_len fr2 \<and> msg fr1 = msg fr2"

text \<open>
  The frame in which the loop of line 59 starts on the empty input: the constant lists
  are assigned and the padded message is the single block \<open>0x80, 0, ..., 0\<close>.
\<close>

definition first_chunk_frame :: frame where
  "first_chunk_frame =
     frame0\<lparr>K := K_table, h := h_init, msg_len := 0, msg := 0x80 # replicate 63 0x00\<rparr>"

text \<open>The word that iteration \<open>i\<close> of lines 66--69 appends to the list \<open>ws\<close>.\<close>

definition schedule_word :: "int list \<Rightarrow> nat \<Rightarrow> int" where
  "schedule_word ws i =
     (ws ! (i - 16)
      + (rightrotate (ws ! (i - 15)) 7 XOR rightrotate (ws ! (i - 15)) 18 XOR drop_bit 3 (ws ! (i - 15)))
      + ws ! (i - 7)
      + (rightrotate (ws ! (i - 2)) 17 XOR rightrotate (ws ! (i - 2)) 19 XOR drop_bit 10 (ws ! (i - 2))))
     AND 0xffffffff"

text \<open>\<open>n\<close> hexadecimal digits of \<open>x\<close>, and the set of the sixteen digit characters.\<close>

definition hexn :: "nat \<Rightarrow> int \<Rightarrow> string" where
  "hexn n x = map (\<lambda>k. hexdigit (x div 16 ^ k mod 16)) (rev [0..<n])"

definition hex_alphabet :: "char set" where
  "hex_alphabet = set ''0123456789abcdef''"

section \<open>Properties\<close>

subsection \<open>The result does not depend on the incoming frame\<close>

lemma extend_w_vars:
  "extend_w i (fr\<lparr>a := x0, b := x1, c := x2, d := x3, e := x4, f := x5, g := x6, h_val := x7\<rparr>)
     = (extend_w i fr)\<lparr>a := x0, b := x1, c := x2, d := x3, e := x4, f := x5, g := x6, h_val := x7\<rparr>"
  by (simp add: extend_w_def Let_def)

lemma fold_extend_w_vars:
  "fold extend_w is (fr\<lparr>a := x0, b := x1, c := x2, d := x3, e := x4, f := x5, g := x6, h_val := x7\<rparr>)
     = (fold extend_w is fr)\<lparr>a := x0, b := x1, c := x2, d := x3, e := x4, f := x5, g := x6, h_val := x7\<rparr>"
  by (induction "is" arbitrary: fr) (simp_all add: extend_w_vars)

lemma load_vars_vars:
  "load_vars (fr\<lparr>a := x0, b := x1, c := x2, d := x3, e := x4, f := x5, g := x6, h_val := x7\<rparr>)
     = load_vars fr"
  by (simp add: load_vars_def split: list.splits)

lemma message_schedule_w: "message_schedule chunk (fr\<lparr>w := ws\<rparr>) = message_schedule chunk fr"
  by (simp add: message_schedule_def split: sum.splits)

lemma message_schedule_vars:
  "message_schedule chunk
      (fr\<lparr>a := x0, b := x1, c := x2, d := x3, e := x4, f := x5, g := x6, h_val := x7\<rparr>)
     = map_sum id (\<lambda>r. r\<lparr>a := x0, b := x1, c := x2, d := x3, e := x4, f := x5, g := x6, h_val := x7\<rparr>)
         (message_schedule chunk fr)"
proof (cases "unpack_16I chunk")
  case (Inl err)
  then show ?thesis by (simp add: message_schedule_def)
next
  case (Inr ws)
  have swap: "(fr\<lparr>a := x0, b := x1, c := x2, d := x3, e := x4, f := x5, g := x6, h_val := x7\<rparr>)\<lparr>w := ws\<rparr>
      = (fr\<lparr>w := ws\<rparr>)\<lparr>a := x0, b := x1, c := x2, d := x3, e := x4, f := x5, g := x6, h_val := x7\<rparr>"
    by simp
  show ?thesis
    unfolding message_schedule_def Inr sum.case swap fold_extend_w_vars by simp
qed

lemma process_chunk_vars:
  "process_chunk cs
      (fr\<lparr>w := ws, a := x0, b := x1, c := x2, d := x3, e := x4, f := x5, g := x6, h_val := x7\<rparr>)
     = process_chunk cs fr"
proof -
  have "process_chunk cs
      ((fr\<lparr>w := ws\<rparr>)\<lparr>a := x0, b := x1, c := x2, d := x3, e := x4, f := x5, g := x6, h_val := x7\<rparr>)
     = process_chunk cs (fr\<lparr>w := ws\<rparr>)"
    unfolding process_chunk_def Let_def message_schedule_vars
    by (cases "message_schedule (take 64 (drop cs (msg fr))) (fr\<lparr>w := ws\<rparr>)")
       (simp_all add: load_vars_vars)
  also have "\<dots> = process_chunk cs fr"
    by (simp add: process_chunk_def message_schedule_w)
  finally show ?thesis by simp
qed

lemma process_chunk_agree:
  assumes "agree fr1 fr2"
  shows "process_chunk cs fr1 = process_chunk cs fr2"
proof -
  have eq: "fr2 = fr1\<lparr>w := w fr2, a := a fr2, b := b fr2, c := c fr2, d := d fr2,
                   e := e fr2, f := f fr2, g := g fr2, h_val := h_val fr2\<rparr>"
    using assms by (simp add: agree_def)
  have "process_chunk cs fr2
      = process_chunk cs (fr1\<lparr>w := w fr2, a := a fr2, b := b fr2, c := c fr2, d := d fr2,
                   e := e fr2, f := f fr2, g := g fr2, h_val := h_val fr2\<rparr>)"
    by (rule arg_cong [where f = "process_chunk cs"]) (rule eq)
  also have "\<dots> = process_chunk cs fr1"
    by (rule process_chunk_vars)
  finally show ?thesis by simp
qed

lemma chunk_loop_agree:
  assumes "agree fr1 fr2"
  shows "map_sum id h (chunk_loop cs fr1) = map_sum id h (chunk_loop cs fr2)"
proof (cases cs)
  case Nil
  with assms show ?thesis by (simp add: agree_def)
next
  case (Cons k rest)
  then show ?thesis using process_chunk_agree [OF assms, of k] by simp
qed

lemma padding_agree:
  assumes "K fr1 = K fr2" and "h fr1 = h fr2"
  shows "(\<exists>err. padding bs fr1 = Inl err \<and> padding bs fr2 = Inl err)
       \<or> (\<exists>r1 r2. padding bs fr1 = Inr r1 \<and> padding bs fr2 = Inr r2 \<and> agree r1 r2)"
  using assms by (cases "pack_Q (int (length bs) * 8)") (simp_all add: padding_def agree_def)

lemma hash_state_frame:
  "map_sum id h (hash_state dat fr1) = map_sum id h (hash_state dat fr2)"
proof (cases "case dat of Str s \<Rightarrow> encode_utf8 s | Bytes bs \<Rightarrow> Inr bs")
  case (Inl err)
  then show ?thesis by (simp add: hash_state_def)
next
  case (Inr bs)
  have "(\<exists>err. padding bs (fr1\<lparr>K := K_table, h := h_init\<rparr>) = Inl err
              \<and> padding bs (fr2\<lparr>K := K_table, h := h_init\<rparr>) = Inl err)
       \<or> (\<exists>r1 r2. padding bs (fr1\<lparr>K := K_table, h := h_init\<rparr>) = Inr r1
              \<and> padding bs (fr2\<lparr>K := K_table, h := h_init\<rparr>) = Inr r2 \<and> agree r1 r2)"
    by (rule padding_agree) simp_all
  then show ?thesis
  proof (elim disjE exE conjE)
    fix err
    assume "padding bs (fr1\<lparr>K := K_table, h := h_init\<rparr>) = Inl err"
      and "padding bs (fr2\<lparr>K := K_table, h := h_init\<rparr>) = Inl err"
    with Inr show ?thesis by (simp add: hash_state_def)
  next
    fix r1 r2
    assume p1: "padding bs (fr1\<lparr>K := K_table, h := h_init\<rparr>) = Inr r1"
      and p2: "padding bs (fr2\<lparr>K := K_table, h := h_init\<rparr>) = Inr r2"
      and ag: "agree r1 r2"
    have "length (msg r1) = length (msg r2)" using ag by (simp add: agree_def)
    with Inr p1 p2 chunk_loop_agree [OF ag] show ?thesis
      by (simp add: hash_state_def)
  qed
qed

lemma sha256_impl_frame: "sha256_impl dat fr1 = sha256_impl dat fr2"
  using hash_state_frame [of dat fr1 fr2]
  by (cases "hash_state dat fr1"; cases "hash_state dat fr2") (simp_all add: sha256_impl_def)

text \<open>
  The first two vectors of the source's test table, run on \<open>frame0\<close> by rewriting with
  the defining equations.
\<close>

lemma sha256_empty_frame0:
  "sha256 (Bytes []) frame0 = Inr ''e3b0c44298fc1c149afbf4c8996fb92427ae41e4649b934ca495991b7852b855''"
  by code_simp

lemma sha256_abc_frame0:
  "sha256 (Bytes [0x61, 0x62, 0x63]) frame0
     = Inr ''ba7816bf8f01cfea414140de5dae2223b00361a396177a9cb410ff61f20015ad''"
  by code_simp

text \<open>The third vector of the source's test table: 56 bytes, two chunks.\<close>

lemma sha256_two_blocks_frame0:
  "sha256 (Bytes
     [0x61, 0x62, 0x63, 0x64, 0x62, 0x63, 0x64, 0x65, 0x63, 0x64, 0x65, 0x66, 0x64, 0x65,
      0x66, 0x67, 0x65, 0x66, 0x67, 0x68, 0x66, 0x67, 0x68, 0x69, 0x67, 0x68, 0x69, 0x6a,
      0x68, 0x69, 0x6a, 0x6b, 0x69, 0x6a, 0x6b, 0x6c, 0x6a, 0x6b, 0x6c, 0x6d, 0x6b, 0x6c,
      0x6d, 0x6e, 0x6c, 0x6d, 0x6e, 0x6f, 0x6d, 0x6e, 0x6f, 0x70, 0x6e, 0x6f, 0x70, 0x71]) frame0
     = Inr ''248d6a61d20638b8e5c026930c3e6039a33ce45964ff2167f6ecedd419db06c1''"
  by code_simp

subsection \<open>Padding\<close>

lemma pad_cond: "(n * 8) mod 512 = 448 \<longleftrightarrow> n mod 64 = (56::nat)"
proof -
  have "(n * 8) mod (64 * 8) = (n mod 64) * 8"
    by (rule mod_mult_mult2)
  then show ?thesis by auto
qed

lemma pad_dist_stop: "n mod 64 = 56 \<Longrightarrow> pad_dist n = 0"
  by (simp add: pad_dist_def)

lemma pad_dist_go: "n mod 64 \<noteq> 56 \<Longrightarrow> pad_dist n = Suc (pad_dist (Suc n))"
proof -
  assume ne: "n mod 64 \<noteq> 56"
  have step: "\<And>r::nat. r < 64 \<Longrightarrow> r \<noteq> 56 \<Longrightarrow>
      (if r \<le> 56 then 56 - r else 120 - r)
      = Suc (if (if Suc r = 64 then 0 else Suc r) \<le> 56 then 56 - (if Suc r = 64 then 0 else Suc r)
             else 120 - (if Suc r = 64 then 0 else Suc r))"
    by (simp split: if_splits) arith
  show ?thesis
    unfolding pad_dist_def mod_Suc using ne by (intro step) simp_all
qed

lemma pad_zeros_eq: "pad_zeros m = m @ replicate (pad_dist (length m)) 0x00"
proof (induction m rule: pad_zeros.induct)
  case (1 m)
  show ?case
  proof (cases "length m mod 64 = 56")
    case True
    then show ?thesis
      by (subst pad_zeros.simps) (simp add: pad_cond pad_dist_stop)
  next
    case False
    then have go: "length m * 8 mod 512 \<noteq> 448" by (simp add: pad_cond)
    have "pad_zeros m = pad_zeros (m @ [0x00])"
      using go by (subst pad_zeros.simps) simp
    also have "\<dots> = (m @ [0x00]) @ replicate (pad_dist (length (m @ [0x00]))) 0x00"
      using go by (rule "1.IH")
    also have "\<dots> = m @ replicate (pad_dist (length m)) 0x00"
      using False by (simp add: pad_dist_go [of "length m"] replicate_append_same)
    finally show ?thesis .
  qed
qed

lemma mod64_cases: "x < 128 \<Longrightarrow> x mod 64 = (if x < 64 then x else x - (64::nat))"
  by (simp add: le_mod_geq)

lemma pad_dist_less: "pad_dist n < 64"
proof -
  have "n mod 64 < 64" by simp
  then show ?thesis unfolding pad_dist_def by (simp split: if_splits) arith
qed

lemma pad_dist_hit: "(n + pad_dist n) mod 64 = 56"
proof -
  have aux: "\<And>r::nat. r < 64 \<Longrightarrow> (r + (if r \<le> 56 then 56 - r else 120 - r)) mod 64 = 56"
    by (simp add: mod64_cases split: if_splits)
  have "(n + pad_dist n) mod 64 = (n mod 64 + pad_dist n) mod 64"
    by (simp add: mod_add_left_eq)
  also have "\<dots> = 56"
    unfolding pad_dist_def by (rule aux) simp
  finally show ?thesis .
qed

lemma pad_dist_min:
  assumes "j < pad_dist n"
  shows "(n + j) mod 64 \<noteq> 56"
proof -
  have aux: "\<And>r::nat. r < 64 \<Longrightarrow> j < (if r \<le> 56 then 56 - r else 120 - r)
      \<Longrightarrow> (r + j) mod 64 \<noteq> 56"
  proof -
    fix r :: nat
    assume r: "r < 64" and j: "j < (if r \<le> 56 then 56 - r else 120 - r)"
    then have "r + j < 128" by (simp split: if_splits)
    then have "(r + j) mod 64 = (if r + j < 64 then r + j else r + j - 64)"
      by (rule mod64_cases)
    with r j show "(r + j) mod 64 \<noteq> 56" by (simp split: if_splits)
  qed
  have "(n + j) mod 64 = (n mod 64 + j) mod 64"
    by (simp add: mod_add_left_eq)
  moreover have "(n mod 64 + j) mod 64 \<noteq> 56"
    using assms unfolding pad_dist_def by (intro aux) simp_all
  ultimately show ?thesis by simp
qed

lemma drop_bit_byte_step:
  "drop_bit (8 + m) n * 256 + take_bit 8 (drop_bit m n) = drop_bit m (n::int)"
proof -
  have "push_bit 8 (drop_bit 8 (drop_bit m n)) + take_bit 8 (drop_bit m n) = drop_bit m n"
    by (rule bits_ident)
  then show ?thesis by (simp add: push_bit_eq_mult drop_bit_drop_bit)
qed

lemma pack_Q_length: "pack_Q n = Inr lenb \<Longrightarrow> length lenb = 8"
  by (auto simp: pack_Q_def split: if_splits)

lemma pack_Q_decode:
  assumes "0 \<le> n" and "n < 2 ^ 64"
  shows "\<exists>lenb. pack_Q n = Inr lenb \<and> length lenb = 8 \<and> be_decode lenb = n"
proof -
  have top: "drop_bit 56 n < 2 ^ 8"
    using assms by (simp add: drop_bit_eq_div) 
  have e7: "take_bit 8 (drop_bit 56 n) = drop_bit 56 n"
    using assms top by (simp add: take_bit_int_eq_self)
  have e6: "drop_bit 56 n * 256 + take_bit 8 (drop_bit 48 n) = drop_bit 48 n"
    using drop_bit_byte_step [of 48 n] by simp
  have e5: "drop_bit 48 n * 256 + take_bit 8 (drop_bit 40 n) = drop_bit 40 n"
    using drop_bit_byte_step [of 40 n] by simp
  have e4: "drop_bit 40 n * 256 + take_bit 8 (drop_bit 32 n) = drop_bit 32 n"
    using drop_bit_byte_step [of 32 n] by simp
  have e3: "drop_bit 32 n * 256 + take_bit 8 (drop_bit 24 n) = drop_bit 24 n"
    using drop_bit_byte_step [of 24 n] by simp
  have e2: "drop_bit 24 n * 256 + take_bit 8 (drop_bit 16 n) = drop_bit 16 n"
    using drop_bit_byte_step [of 16 n] by simp
  have e1: "drop_bit 16 n * 256 + take_bit 8 (drop_bit 8 n) = drop_bit 8 n"
    using drop_bit_byte_step [of 8 n] by simp
  have e0: "drop_bit 8 n * 256 + take_bit 8 n = n"
    using drop_bit_byte_step [of 0 n] by simp
  have "be_decode (map (\<lambda>k. word_of_int (drop_bit (8 * k) n)) [7, 6, 5, 4, 3, 2, 1, 0]) = n"
    by (simp add: be_decode_def uint_word_of_int_eq e7 e6 e5 e4 e3 e2 e1 e0)
  with assms show ?thesis by (simp add: pack_Q_def)
qed

lemma padding_eq:
  assumes "pack_Q (int (length bs) * 8) = Inr lenb"
  shows "padding bs fr = Inr (fr\<lparr>msg_len := int (length bs) * 8,
            msg := bs @ [0x80] @ replicate (pad_dist (Suc (length bs))) 0x00 @ lenb\<rparr>)"
  using assms by (simp add: padding_def pad_zeros_eq)

lemma mod64_512: "n mod 64 = 0 \<Longrightarrow> (n * 8) mod 512 = (0::nat)"
  using mod_mult_mult2 [of n 8 64] by simp

lemma padded_length_mod:
  assumes "length lenb = 8"
  shows "length (bs @ [0x80::byte] @ replicate (pad_dist (Suc (length bs))) 0x00 @ lenb) mod 64 = 0"
proof -
  define t where "t = Suc (length bs) + pad_dist (Suc (length bs))"
  have "t mod 64 = 56"
    unfolding t_def by (rule pad_dist_hit)
  moreover have "(t + 8) mod 64 = (t mod 64 + 8) mod 64"
    by (simp add: mod_add_left_eq)
  ultimately have z: "(t + 8) mod 64 = 0" by simp
  have len: "length (bs @ [0x80::byte] @ replicate (pad_dist (Suc (length bs))) 0x00 @ lenb) = t + 8"
    using assms by (simp add: t_def)
  show ?thesis unfolding len by (rule z)
qed


lemma padding_Inr:
  assumes "padding bs fr = Inr fr'"
  shows "\<exists>lenb. length lenb = 8
           \<and> fr' = fr\<lparr>msg_len := int (length bs) * 8,
                 msg := bs @ [0x80] @ replicate (pad_dist (Suc (length bs))) 0x00 @ lenb\<rparr>"
proof (cases "pack_Q (int (length bs) * 8)")
  case (Inl err)
  with assms show ?thesis by (simp add: padding_def)
next
  case (Inr lenb)
  then have "length lenb = 8" by (rule pack_Q_length)
  moreover from Inr assms have "fr' = fr\<lparr>msg_len := int (length bs) * 8,
      msg := bs @ [0x80] @ replicate (pad_dist (Suc (length bs))) 0x00 @ lenb\<rparr>"
    by (simp add: padding_eq)
  ultimately show ?thesis by blast
qed

text \<open>The frame \<open>first_chunk_frame\<close> is what the padding of the empty input leaves.\<close>

lemma padding_empty: "padding [] (frame0\<lparr>K := K_table, h := h_init\<rparr>) = Inr first_chunk_frame"
proof -
  have "pack_Q (int (length ([] :: byte list)) * 8) = Inr [0, 0, 0, 0, 0, 0, 0, 0]"
    by (simp add: pack_Q_def)
  then have "padding [] (frame0\<lparr>K := K_table, h := h_init\<rparr>)
      = Inr (frame0\<lparr>K := K_table, h := h_init, msg_len := int (length ([] :: byte list)) * 8,
          msg := [] @ [0x80] @ replicate (pad_dist (Suc (length ([] :: byte list)))) 0x00
                 @ [0, 0, 0, 0, 0, 0, 0, 0]\<rparr>)"
    by (rule padding_eq)
  moreover have "pad_dist (Suc 0) = 55" by (simp add: pad_dist_def)
  moreover have "replicate 55 (0::byte) @ [0, 0, 0, 0, 0, 0, 0, 0] = replicate 63 0"
    by (simp add: numeral_eq_Suc)
  ultimately show ?thesis by (simp add: first_chunk_frame_def)
qed

subsection \<open>Rotation\<close>

lemma mask32: "(0xffffffff::int) = mask 32"
  by (simp add: mask_eq_exp_minus_1)

lemma and_mask32: "(x::int) AND 0xffffffff = x mod 2 ^ 32"
  by (simp only: mask32 take_bit_eq_mask [symmetric] take_bit_eq_mod)

lemma bit_word32:
  assumes "0 \<le> n" and "n < 2 ^ 32"
  shows "bit n i \<longleftrightarrow> i < 32 \<and> bit (n::int) i"
proof -
  have "take_bit 32 n = n" using assms by (simp add: take_bit_int_eq_self)
  then have "bit n i \<longleftrightarrow> bit (take_bit 32 n) i" by simp
  then show ?thesis by (simp only: bit_take_bit_iff)
qed

lemma rotr_index:
  assumes "\<not> (j::nat) + k < 32" and "k \<le> 32" and "j < 32"
  shows "(j + k) mod 32 = j - (32 - k)"
proof -
  have "(j + k) mod 32 = (j + k - 32) mod 32"
    using assms(1) by (simp only: le_mod_geq not_less)
  also have "j + k - 32 = j - (32 - k)" using assms by arith
  also have "(j - (32 - k)) mod 32 = j - (32 - k)" using assms by (intro mod_less) arith
  finally show ?thesis .
qed

lemma rightrotate_rotr:
  assumes "0 \<le> n" and "n < 2 ^ 32" and "k \<le> 32"
  shows "rightrotate n k = spec_rotr n k"
proof (rule bit_eqI)
  fix j
  have hi: "\<And>i. bit n i \<Longrightarrow> i < 32"
    using bit_word32 [OF assms(1,2)] by blast
  have lhs0: "bit (rightrotate n k) j \<longleftrightarrow>
      j < 32 \<and> (bit n (k + j) \<or> (32 - k \<le> j \<and> bit n (j - (32 - k))))"
    unfolding rightrotate_def mask32
    by (auto simp add: bit_and_iff bit_or_iff bit_mask_iff bit_drop_bit_eq bit_push_bit_iff)
  have lhs: "bit (rightrotate n k) j \<longleftrightarrow>
      j < 32 \<and> (bit n (j + k) \<or> (32 - k \<le> j \<and> bit n (j - (32 - k))))"
    using lhs0 by (simp only: add.commute [of k j])
  have rhs: "bit (spec_rotr n k) j \<longleftrightarrow> j < 32 \<and> bit n ((j + k) mod 32)"
    unfolding spec_rotr_def
    by (auto simp add: bit_uint_iff bit_word_rotr_iff bit_word_of_int_iff)
  show "bit (rightrotate n k) j \<longleftrightarrow> bit (spec_rotr n k) j"
  proof (cases "j < 32")
    case False
    then show ?thesis unfolding lhs rhs by (simp only: simp_thms)
  next
    case j: True
    show ?thesis
    proof (cases "j + k < 32")
      case True
      then have m: "(j + k) mod 32 = j + k" by (rule mod_less)
      from True have "\<not> 32 - k \<le> j" by arith
      then show ?thesis unfolding lhs rhs m by (simp only: simp_thms)
    next
      case False
      then have z: "\<not> bit n (j + k)" using hi by blast
      have m: "(j + k) mod 32 = j - (32 - k)"
        using False assms(3) j by (rule rotr_index)
      have l: "32 - k \<le> j" using False by arith
      show ?thesis unfolding lhs rhs m using z l by (simp only: simp_thms)
    qed
  qed
qed

subsection \<open>Every chunk is processed without an exception\<close>

lemma and_mask32_range: "0 \<le> (x::int) AND 0xffffffff \<and> x AND 0xffffffff < 2 ^ 32"
  by (simp add: and_mask32)

lemma extend_w_frame:
  "K (extend_w i fr) = K fr" "h (extend_w i fr) = h fr"
  "msg (extend_w i fr) = msg fr" "msg_len (extend_w i fr) = msg_len fr"
  by (simp_all add: extend_w_def Let_def)

lemma fold_extend_w_frame:
  "K (fold extend_w is fr) = K fr \<and> h (fold extend_w is fr) = h fr
   \<and> msg (fold extend_w is fr) = msg fr \<and> msg_len (fold extend_w is fr) = msg_len fr"
  by (induction "is" arbitrary: fr) (simp_all add: extend_w_frame)

lemma round_step_frame:
  "K (round_step i fr) = K fr" "h (round_step i fr) = h fr" "w (round_step i fr) = w fr"
  "msg (round_step i fr) = msg fr" "msg_len (round_step i fr) = msg_len fr"
  by (simp_all add: round_step_def Let_def)

lemma fold_round_step_frame:
  "K (fold round_step is fr) = K fr \<and> h (fold round_step is fr) = h fr
   \<and> w (fold round_step is fr) = w fr
   \<and> msg (fold round_step is fr) = msg fr \<and> msg_len (fold round_step is fr) = msg_len fr"
  by (induction "is" arbitrary: fr) (simp_all add: round_step_frame)

lemma list8:
  assumes "length xs = 8"
  obtains x0 x1 x2 x3 x4 x5 x6 x7 where "xs = [x0, x1, x2, x3, x4, x5, x6, x7]"
proof -
  from assms have "length xs = Suc (Suc (Suc (Suc (Suc (Suc (Suc (Suc 0)))))))" by simp
  then show ?thesis using that by (auto simp: length_Suc_conv)
qed

lemma load_vars_eq:
  "h fr = [x0, x1, x2, x3, x4, x5, x6, x7] \<Longrightarrow>
   load_vars fr = Inr (fr\<lparr>a := x0, b := x1, c := x2, d := x3, e := x4, f := x5, g := x6, h_val := x7\<rparr>)"
  by (simp add: load_vars_def)

lemma accumulate_h:
  "h fr = [x0, x1, x2, x3, x4, x5, x6, x7] \<Longrightarrow>
   h (accumulate fr) =
     [(x0 + a fr) AND 0xffffffff, (x1 + b fr) AND 0xffffffff,
      (x2 + c fr) AND 0xffffffff, (x3 + d fr) AND 0xffffffff,
      (x4 + e fr) AND 0xffffffff, (x5 + f fr) AND 0xffffffff,
      (x6 + g fr) AND 0xffffffff, (x7 + h_val fr) AND 0xffffffff]"
  by (simp add: accumulate_def Let_def)

lemma accumulate_frame:
  "K (accumulate fr) = K fr" "msg (accumulate fr) = msg fr" "msg_len (accumulate fr) = msg_len fr"
  by (simp_all add: accumulate_def Let_def)

lemma message_schedule_ok:
  assumes "length chunk = 64"
  shows "message_schedule chunk fr = Inr (fold extend_w [16..<64] (fr\<lparr>w := be_words chunk\<rparr>))"
  using assms by (simp add: message_schedule_def unpack_16I_def del: upt_rec_numeral)

lemma process_chunk_ok:
  assumes "length (h fr) = 8" and "cs + 64 \<le> length (msg fr)"
  shows "\<exists>fr'. process_chunk cs fr = Inr fr' \<and> length (h fr') = 8 \<and> words32 (h fr')
           \<and> K fr' = K fr \<and> msg fr' = msg fr \<and> msg_len fr' = msg_len fr"
proof -
  obtain x0 x1 x2 x3 x4 x5 x6 x7 where hx: "h fr = [x0, x1, x2, x3, x4, x5, x6, x7]"
    using assms(1) by (rule list8)
  define chunk where "chunk = take 64 (drop cs (msg fr))"
  have len: "length chunk = 64" using assms(2) by (simp add: chunk_def)
  define fr1 where "fr1 = fold extend_w [16..<64] (fr\<lparr>w := be_words chunk\<rparr>)"
  have s: "message_schedule chunk fr = Inr fr1"
    unfolding fr1_def using len by (rule message_schedule_ok)
  have f1: "K fr1 = K fr \<and> h fr1 = h fr \<and> msg fr1 = msg fr \<and> msg_len fr1 = msg_len fr"
    unfolding fr1_def using fold_extend_w_frame [of "[16..<64]" "fr\<lparr>w := be_words chunk\<rparr>"]
    by (simp del: upt_rec_numeral)
  define fr2 where
    "fr2 = fr1\<lparr>a := x0, b := x1, c := x2, d := x3, e := x4, f := x5, g := x6, h_val := x7\<rparr>"
  have l: "load_vars fr1 = Inr fr2"
    unfolding fr2_def using f1 hx by (intro load_vars_eq) simp
  have f2: "K fr2 = K fr \<and> h fr2 = h fr \<and> msg fr2 = msg fr \<and> msg_len fr2 = msg_len fr"
    using f1 by (simp add: fr2_def)
  define fr3 where "fr3 = fold round_step [0..<64] fr2"
  have f3: "K fr3 = K fr \<and> h fr3 = h fr \<and> msg fr3 = msg fr \<and> msg_len fr3 = msg_len fr"
    unfolding fr3_def using fold_round_step_frame [of "[0..<64]" fr2] f2
    by (simp del: upt_rec_numeral)
  have p: "process_chunk cs fr = Inr (accumulate fr3)"
    unfolding process_chunk_def Let_def chunk_def [symmetric] s sum.case l fr3_def ..
  have hh: "h (accumulate fr3) =
     [(x0 + a fr3) AND 0xffffffff, (x1 + b fr3) AND 0xffffffff,
      (x2 + c fr3) AND 0xffffffff, (x3 + d fr3) AND 0xffffffff,
      (x4 + e fr3) AND 0xffffffff, (x5 + f fr3) AND 0xffffffff,
      (x6 + g fr3) AND 0xffffffff, (x7 + h_val fr3) AND 0xffffffff]"
    using f3 hx by (intro accumulate_h) simp
  have "length (h (accumulate fr3)) = 8" unfolding hh by simp
  moreover have "words32 (h (accumulate fr3))"
    unfolding hh words32_def by (simp add: and_mask32_range)
  ultimately show ?thesis using p f3 by (simp add: accumulate_frame)
qed

lemma chunk_loop_ok:
  assumes "length (h fr) = 8" and "words32 (h fr)"
    and "\<forall>cs\<in>set css. cs + 64 \<le> length (msg fr)"
  shows "\<exists>fr'. chunk_loop css fr = Inr fr' \<and> length (h fr') = 8 \<and> words32 (h fr')
           \<and> K fr' = K fr \<and> msg fr' = msg fr \<and> msg_len fr' = msg_len fr"
  using assms
proof (induction css arbitrary: fr)
  case Nil
  then show ?case by simp
next
  case (Cons cs css)
  from Cons.prems have "cs + 64 \<le> length (msg fr)" by simp
  with Cons.prems(1) obtain fr1 where p: "process_chunk cs fr = Inr fr1"
    and h1: "length (h fr1) = 8" and w1: "words32 (h fr1)"
    and k1: "K fr1 = K fr" and m1: "msg fr1 = msg fr" and l1: "msg_len fr1 = msg_len fr"
    using process_chunk_ok [of fr cs] by blast
  from Cons.prems m1 have "\<forall>cs\<in>set css. cs + 64 \<le> length (msg fr1)" by simp
  with h1 w1 obtain fr' where "chunk_loop css fr1 = Inr fr'"
    and "length (h fr') = 8" and "words32 (h fr')"
    and "K fr' = K fr1" and "msg fr' = msg fr1" and "msg_len fr' = msg_len fr1"
    using Cons.IH [of fr1] by blast
  with p k1 m1 l1 show ?case by simp
qed

lemma range_step_chunks:
  assumes "n mod 64 = 0"
  shows "\<forall>cs\<in>set (range_step n 64). cs + 64 \<le> n"
proof
  fix cs
  assume "cs \<in> set (range_step n 64)"
  then have "\<exists>k. k < (n + 64 - 1) div 64 \<and> cs = k * 64"
    unfolding range_step_def by auto
  then obtain k where k0: "k < (n + 64 - 1) div 64" and cs: "cs = k * 64"
    by blast
  from k0 have k: "k < (n + 63) div 64" by simp
  from assms obtain q where q: "n = 64 * q" by (auto simp: mod_eq_0_iff_dvd)
  have "(n + 63) div 64 = q" unfolding q by simp
  with k have "k < q" by simp
  then show "cs + 64 \<le> n" unfolding cs q by simp
qed

lemma words32_h_init: "length h_init = 8 \<and> words32 h_init"
  by (simp add: h_init_def words32_def)

lemma hash_state_ok:
  assumes "int (length bs) * 8 < 2 ^ 64"
  shows "\<exists>fr'. hash_state (Bytes bs) fr = Inr fr' \<and> length (h fr') = 8 \<and> words32 (h fr')
           \<and> K fr' = K_table"
proof -
  define fr0 where "fr0 = fr\<lparr>K := K_table, h := h_init\<rparr>"
  obtain lenb where q: "pack_Q (int (length bs) * 8) = Inr lenb" and l: "length lenb = 8"
    using pack_Q_decode [of "int (length bs) * 8"] assms by auto
  define m where "m = bs @ [0x80] @ replicate (pad_dist (Suc (length bs))) 0x00 @ lenb"
  define fr1 where "fr1 = fr0\<lparr>msg_len := int (length bs) * 8, msg := m\<rparr>"
  have p: "padding bs fr0 = Inr fr1"
    unfolding fr1_def m_def using q by (rule padding_eq)
  have mm: "msg fr1 = m" and hh: "h fr1 = h_init" and kk: "K fr1 = K_table"
    by (simp_all add: fr1_def fr0_def)
  have "length m mod 64 = 0"
    unfolding m_def using l by (rule padded_length_mod)
  then have "\<forall>cs\<in>set (range_step (length m) 64). cs + 64 \<le> length m"
    by (rule range_step_chunks)
  then have "\<exists>fr'. chunk_loop (range_step (length (msg fr1)) 64) fr1 = Inr fr'
      \<and> length (h fr') = 8 \<and> words32 (h fr')
      \<and> K fr' = K fr1 \<and> msg fr' = msg fr1 \<and> msg_len fr' = msg_len fr1"
    using words32_h_init by (intro chunk_loop_ok) (simp_all add: mm hh)
  then obtain fr' where c: "chunk_loop (range_step (length (msg fr1)) 64) fr1 = Inr fr'"
    and "length (h fr') = 8" and "words32 (h fr')" and "K fr' = K_table"
    using kk by auto
  moreover have "hash_state (Bytes bs) fr = Inr fr'"
    unfolding hash_state_def Let_def using p c by (simp add: fr0_def)
  ultimately show ?thesis by blast
qed

lemma sha256_too_long:
  assumes "2 ^ 64 \<le> int (length bs) * 8"
  shows "sha256 (Bytes bs) fr = Inl StructError"
  using assms by (simp add: sha256_def sha256_impl_def hash_state_def padding_def pack_Q_def)

subsection \<open>The message schedule\<close>

lemma be_words_length: "length (be_words xs) = length xs div 4"
  by (induction xs rule: be_words.induct) simp_all

lemma be_words_range: "words32 (be_words xs)"
proof (induction xs rule: be_words.induct)
  case (1 b0 b1 b2 b3 rest)
  have "0 \<le> uint b0" "0 \<le> uint b1" "0 \<le> uint b2" "0 \<le> uint b3" by simp_all
  moreover have "uint b0 < 256" "uint b1 < 256" "uint b2 < 256" "uint b3 < 256"
    using uint_lt2p [of b0] uint_lt2p [of b1] uint_lt2p [of b2] uint_lt2p [of b3] by simp_all
  ultimately have "0 \<le> uint b0 * 2 ^ 24 + uint b1 * 2 ^ 16 + uint b2 * 2 ^ 8 + uint b3
      \<and> uint b0 * 2 ^ 24 + uint b1 * 2 ^ 16 + uint b2 * 2 ^ 8 + uint b3 < 2 ^ 32"
    by simp
  with "1.IH" show ?case by (simp add: words32_def)
qed (simp_all add: words32_def)

lemma be_words_nth:
  "4 * j + 4 \<le> length xs \<Longrightarrow> be_words xs ! j = be_decode (take 4 (drop (4 * j) xs))"
proof (induction xs arbitrary: j rule: be_words.induct)
  case (1 b0 b1 b2 b3 rest)
  show ?case
  proof (cases j)
    case 0
    then show ?thesis by (simp add: be_decode_def)
  next
    case (Suc i)
    with "1.prems" have "4 * i + 4 \<le> length rest" by simp
    then have ih: "be_words rest ! i = be_decode (take 4 (drop (4 * i) rest))" by (rule "1.IH")
    have "4 * Suc i = Suc (Suc (Suc (Suc (4 * i))))" by simp
    then have "drop (4 * Suc i) (b0 # b1 # b2 # b3 # rest) = drop (4 * i) rest"
      by (simp only: drop_Suc_Cons)
    with ih show ?thesis unfolding Suc by (simp del: mult_Suc_right)
  qed
qed simp_all

lemma extend_w_w: "w (extend_w i fr) = w fr @ [schedule_word (w fr) i]"
  by (simp add: extend_w_def schedule_word_def Let_def)

lemma schedule_word_append:
  assumes "16 \<le> i" and "i \<le> length ws"
  shows "schedule_word (ws @ [v]) i = schedule_word ws i"
proof -
  have "i - 16 < length ws" "i - 15 < length ws" "i - 7 < length ws" "i - 2 < length ws"
    using assms by arith+
  then show ?thesis by (simp add: schedule_word_def nth_append)
qed

lemma fold_extend_w_sched:
  assumes "length (w fr) = m" and "16 \<le> m"
  shows "length (w (fold extend_w [m..<m + k] fr)) = m + k
       \<and> take m (w (fold extend_w [m..<m + k] fr)) = w fr
       \<and> (\<forall>i. m \<le> i \<and> i < m + k \<longrightarrow>
            w (fold extend_w [m..<m + k] fr) ! i
              = schedule_word (w (fold extend_w [m..<m + k] fr)) i)"
proof (induction k)
  case 0
  with assms show ?case by simp
next
  case (Suc k)
  define ws where "ws = w (fold extend_w [m..<m + k] fr)"
  from Suc have len: "length ws = m + k" and pre: "take m ws = w fr"
    and rec: "\<forall>i. m \<le> i \<and> i < m + k \<longrightarrow> ws ! i = schedule_word ws i"
    unfolding ws_def by blast+
  define v where "v = schedule_word ws (m + k)"
  have "[m..<m + Suc k] = [m..<m + k] @ [m + k]" by simp
  then have "fold extend_w [m..<m + Suc k] fr = extend_w (m + k) (fold extend_w [m..<m + k] fr)"
    by (simp only: fold_append fold_simps comp_def id_def)
  then have new: "w (fold extend_w [m..<m + Suc k] fr) = ws @ [v]"
    by (simp only: extend_w_w ws_def v_def)
  have l: "length (ws @ [v]) = m + Suc k" using len by simp
  have p: "take m (ws @ [v]) = w fr" using len pre by simp
  have r: "\<forall>i. m \<le> i \<and> i < m + Suc k \<longrightarrow> (ws @ [v]) ! i = schedule_word (ws @ [v]) i"
  proof (intro allI impI)
    fix i
    assume i: "m \<le> i \<and> i < m + Suc k"
    then have app: "schedule_word (ws @ [v]) i = schedule_word ws i"
      using assms(2) len by (intro schedule_word_append) arith+
    show "(ws @ [v]) ! i = schedule_word (ws @ [v]) i"
    proof (cases "i < m + k")
      case True
      with i rec have "ws ! i = schedule_word ws i" by blast
      with True len app show ?thesis by (simp add: nth_append)
    next
      case False
      with i have "i = m + k" by arith
      with len app show ?thesis by (simp add: nth_append v_def)
    qed
  qed
  from l p r show ?case unfolding new by blast
qed

lemma schedule_word_range: "0 \<le> schedule_word ws i \<and> schedule_word ws i < 2 ^ 32"
  unfolding schedule_word_def by (rule and_mask32_range)

lemma schedule_word_spec:
  assumes "0 \<le> ws ! (i - 15) \<and> ws ! (i - 15) < 2 ^ 32"
    and "0 \<le> ws ! (i - 2) \<and> ws ! (i - 2) < 2 ^ 32"
  shows "schedule_word ws i
    = (ws ! (i - 16) + spec_sigma0 (ws ! (i - 15)) + ws ! (i - 7) + spec_sigma1 (ws ! (i - 2))) mod 2 ^ 32"
  using assms
  by (simp add: schedule_word_def spec_sigma0_def spec_sigma1_def and_mask32 rightrotate_rotr)


subsection \<open>The format of the result\<close>

lemma rev_upt_8: "rev [0..<8] = [7, 6, 5, 4, 3, 2, 1, 0::nat]"
  by code_simp

lemma hex8_hexn: "hex8 x = hexn 8 x"
  unfolding hex8_def hexn_def rev_upt_8 ..

lemma hexn_Suc: "hexn (Suc n) x = hexn n (x div 16) @ [hexdigit (x mod 16)]"
proof -
  have "[0..<Suc n] = 0 # map Suc [0..<n]"
    by (simp add: upt_conv_Cons map_Suc_upt del: upt_Suc)
  then have "rev [0..<Suc n] = map Suc (rev [0..<n]) @ [0]"
    by (simp add: rev_map)
  moreover have "x div 16 ^ Suc k = x div 16 div 16 ^ k" for k
    by (simp add: zdiv_zmult2_eq)
  ultimately show ?thesis
    unfolding hexn_def by (simp add: comp_def del: upt_Suc power_Suc)
qed

lemma hexn_zero: "hexn n 0 = replicate n CHR ''0''"
proof -
  have "hexdigit 0 = CHR ''0''" by (simp add: hexdigit_def)
  then have "hexn n 0 = map (\<lambda>k. CHR ''0'') (rev [0..<n])" by (simp add: hexn_def)
  also have "\<dots> = replicate (length (rev [0..<n])) CHR ''0''" by (simp only: map_replicate_const)
  finally show ?thesis by simp
qed

lemma zfill_snoc: "zfill (Suc n) (s @ [y]) = zfill n s @ [y]"
  by (simp add: zfill_def)

lemma zfill_hex_digits:
  assumes "0 \<le> x" and "x < 16 ^ Suc n"
  shows "length (hex_digits x) \<le> Suc n \<and> zfill (Suc n) (hex_digits x) = hexn (Suc n) x"
  using assms
proof (induction n arbitrary: x)
  case 0
  then have "hex_digits x = [hexdigit x]" by (subst hex_digits.simps) simp
  with "0.prems" show ?case by (simp add: zfill_def hexn_def)
next
  case (Suc n)
  show ?case
  proof (cases "x < 16")
    case True
    then have hd: "hex_digits x = [hexdigit x]" by (subst hex_digits.simps) simp
    from True Suc.prems have "x div 16 = 0" and "x mod 16 = x" by simp_all
    then have "hexn (Suc (Suc n)) x = replicate (Suc n) CHR ''0'' @ [hexdigit x]"
      by (simp add: hexn_Suc [of "Suc n"] hexn_zero del: replicate_Suc)
    then show ?thesis by (simp add: hd zfill_def)
  next
    case False
    then have hd: "hex_digits x = hex_digits (x div 16) @ [hexdigit (x mod 16)]"
      by (subst hex_digits.simps) simp
    have "0 \<le> x div 16" using Suc.prems by simp
    moreover have "x div 16 < 16 ^ Suc n" using Suc.prems by simp
    ultimately have ih: "length (hex_digits (x div 16)) \<le> Suc n
        \<and> zfill (Suc n) (hex_digits (x div 16)) = hexn (Suc n) (x div 16)"
      by (rule Suc.IH)
    then show ?thesis
      by (simp add: hd zfill_snoc hexn_Suc [of "Suc n"])
  qed
qed

lemma fmt_08x_hex8:
  assumes "0 \<le> x" and "x < 2 ^ 32"
  shows "fmt_08x x = hex8 x"
proof -
  have "x < 16 ^ Suc 7" using assms by simp
  with assms(1) have "zfill (Suc 7) (hex_digits x) = hexn (Suc 7) x"
    using zfill_hex_digits by blast
  then have "zfill 8 (hex_digits x) = hexn 8 x" by simp
  with assms(1) show ?thesis by (simp add: fmt_08x_def hex8_hexn)
qed

lemma hexdigit_in: "hexdigit (y mod 16) \<in> hex_alphabet"
proof -
  have "length ''0123456789abcdef'' = 16" by simp
  moreover have "nat (y mod 16) < 16" by simp
  ultimately have "nat (y mod 16) < length ''0123456789abcdef''" by (simp only:)
  then show ?thesis unfolding hexdigit_def hex_alphabet_def by (rule nth_mem)
qed

lemma hex8_length: "length (hex8 x) = 8"
  by (simp add: hex8_def)

lemma hex8_chars: "set (hex8 x) \<subseteq> hex_alphabet"
  unfolding hex8_def using hexdigit_in by auto

lemma concat_hex8_length: "length (concat (map hex8 ws)) = 8 * length ws"
  by (induction ws) (simp_all add: hex8_length)

lemma concat_hex8_chars: "set (concat (map hex8 ws)) \<subseteq> hex_alphabet"
  using hex8_chars by auto

lemma map_fmt_08x: "words32 ws \<Longrightarrow> map fmt_08x ws = map hex8 ws"
  by (simp add: words32_def fmt_08x_hex8)

lemma byte_nibbles:
  "uint (word_of_int y :: byte) div 16 = y div 16 mod 16"
  "uint (word_of_int y :: byte) mod 16 = y mod 16"
proof -
  have u: "uint (word_of_int y :: byte) = y mod 256"
    by (simp add: uint_word_of_int_eq take_bit_eq_mod)
  have "y mod (16 * 16) = 16 * (y div 16 mod 16) + y mod 16"
    by (rule zmod_zmult2_eq) simp
  then have "y mod 256 div 16 = (16 * (y div 16 mod 16) + y mod 16) div 16" by simp
  also have "\<dots> = y div 16 mod 16" by simp
  finally show "uint (word_of_int y :: byte) div 16 = y div 16 mod 16" by (simp only: u)
  have "(16::int) dvd 256" by simp
  then have "y mod 256 mod 16 = y mod 16" by (rule mod_mod_cancel)
  then show "uint (word_of_int y :: byte) mod 16 = y mod 16" by (simp only: u)
qed

lemma hex8_bytes: "hex8 x = concat (map hex_byte (be_bytes32 x))"
proof -
  have d: "x div 16777216 div 16 = x div 268435456" "x div 65536 div 16 = x div 1048576"
    "x div 256 div 16 = x div 4096"
    by (simp_all add: zdiv_zmult2_eq [symmetric])
  show ?thesis
    by (simp add: hex8_def be_bytes32_def hex_byte_def byte_nibbles drop_bit_eq_div d)
qed

lemma digest_bytes_length: "length (digest_bytes ws) = 4 * length ws"
  unfolding digest_bytes_def by (induction ws) (simp_all add: be_bytes32_def)

lemma concat_hex8_bytes: "concat (map hex8 ws) = concat (map hex_byte (digest_bytes ws))"
  unfolding digest_bytes_def by (induction ws) (simp_all add: hex8_bytes)


subsection \<open>What a returned frame holds\<close>

lemma load_vars_Inr:
  assumes "load_vars fr = Inr fr'"
  shows "\<exists>x0 x1 x2 x3 x4 x5 x6 x7. h fr = [x0, x1, x2, x3, x4, x5, x6, x7] \<and> h fr' = h fr"
  using assms unfolding load_vars_def by (auto split: list.splits)

lemma message_schedule_Inr:
  assumes "message_schedule chunk fr = Inr fr'"
  shows "h fr' = h fr"
proof (cases "unpack_16I chunk")
  case (Inl err)
  with assms show ?thesis by (simp add: message_schedule_def)
next
  case (Inr ws)
  with assms have "fr' = fold extend_w [16..<64] (fr\<lparr>w := ws\<rparr>)"
    by (simp add: message_schedule_def del: upt_rec_numeral)
  then show ?thesis
    using fold_extend_w_frame [of "[16..<64]" "fr\<lparr>w := ws\<rparr>"] by (simp del: upt_rec_numeral)
qed

lemma process_chunk_Inr:
  assumes "process_chunk cs fr = Inr fr'"
  shows "length (h fr') = 8 \<and> words32 (h fr')"
proof -
  define chunk where "chunk = take 64 (drop cs (msg fr))"
  from assms obtain fr0 where s: "message_schedule chunk fr = Inr fr0"
    unfolding process_chunk_def Let_def chunk_def [symmetric]
    by (cases "message_schedule chunk fr") simp_all
  with assms obtain fr1 where l: "load_vars fr0 = Inr fr1"
    unfolding process_chunk_def Let_def chunk_def [symmetric]
    by (cases "load_vars fr0") simp_all
  define r where "r = fold round_step [0..<64] fr1"
  from assms s l have f: "fr' = accumulate r"
    unfolding process_chunk_def Let_def chunk_def [symmetric] r_def by simp
  from l obtain x0 x1 x2 x3 x4 x5 x6 x7 where "h fr0 = [x0, x1, x2, x3, x4, x5, x6, x7]"
    and "h fr1 = h fr0"
    using load_vars_Inr by blast
  then have hr: "h r = [x0, x1, x2, x3, x4, x5, x6, x7]"
    unfolding r_def using fold_round_step_frame [of "[0..<64]" fr1] by (simp del: upt_rec_numeral)
  have hh: "h (accumulate r) =
     [(x0 + a r) AND 0xffffffff, (x1 + b r) AND 0xffffffff,
      (x2 + c r) AND 0xffffffff, (x3 + d r) AND 0xffffffff,
      (x4 + e r) AND 0xffffffff, (x5 + f r) AND 0xffffffff,
      (x6 + g r) AND 0xffffffff, (x7 + h_val r) AND 0xffffffff]"
    using hr by (rule accumulate_h)
  have "length (h (accumulate r)) = 8" unfolding hh by simp
  moreover have "words32 (h (accumulate r))"
    unfolding hh words32_def by (simp add: and_mask32_range)
  ultimately show ?thesis unfolding f by blast
qed

lemma chunk_loop_Inr:
  assumes "chunk_loop css fr = Inr fr'" and "length (h fr) = 8 \<and> words32 (h fr)"
  shows "length (h fr') = 8 \<and> words32 (h fr')"
  using assms
proof (induction css arbitrary: fr)
  case Nil
  then show ?case by simp
next
  case (Cons cs css)
  from Cons.prems(1) obtain fr1 where p: "process_chunk cs fr = Inr fr1"
    by (cases "process_chunk cs fr") simp_all
  with Cons.prems(1) have "chunk_loop css fr1 = Inr fr'" by simp
  moreover from p have "length (h fr1) = 8 \<and> words32 (h fr1)" by (rule process_chunk_Inr)
  ultimately show ?case by (rule Cons.IH)
qed

lemma hash_state_Inr:
  assumes "hash_state dat fr = Inr fr'"
  shows "length (h fr') = 8 \<and> words32 (h fr')"
proof -
  define fr0 where "fr0 = fr\<lparr>K := K_table, h := h_init\<rparr>"
  from assms obtain bs where "(case dat of Str s \<Rightarrow> encode_utf8 s | Bytes bs \<Rightarrow> Inr bs) = Inr bs"
    unfolding hash_state_def Let_def
    by (cases "case dat of Str s \<Rightarrow> encode_utf8 s | Bytes bs \<Rightarrow> Inr bs") simp_all
  with assms have a1: "(case padding bs fr0 of Inl err \<Rightarrow> Inl err
      | Inr fr1 \<Rightarrow> chunk_loop (range_step (length (msg fr1)) 64) fr1) = Inr fr'"
    unfolding hash_state_def Let_def fr0_def by simp
  then obtain fr1 where p: "padding bs fr0 = Inr fr1"
    by (cases "padding bs fr0") simp_all
  with a1 have c: "chunk_loop (range_step (length (msg fr1)) 64) fr1 = Inr fr'" by simp
  from p have "h fr1 = h fr0" using padding_Inr by fastforce
  then have "length (h fr1) = 8 \<and> words32 (h fr1)"
    using words32_h_init by (simp add: fr0_def)
  with c show ?thesis by (rule chunk_loop_Inr)
qed

subsection \<open>No subscript is out of range\<close>

text \<open>
  With the subscripts in range the checked steps do what the unchecked ones do; on every
  argument and every incoming frame the two bodies give the same result.  A frame whose
  list \<open>K\<close> is empty shows that the branch \<open>IndexError\<close> is there.
\<close>

lemma subscript_in_range: "j < length xs \<Longrightarrow> subscript xs (int j) = Inr (xs ! j)"
  by (simp add: subscript_def)

lemma store_item_in_range: "j < length xs \<Longrightarrow> store_item xs (int j) v = Inr (xs[j := v])"
  by (simp add: store_item_def)

lemma and_then_Inr: "and_then (Inr x) rest = rest x"
  by (simp add: and_then_def)

lemma and_then_Inl: "and_then (Inl err) rest = Inl err"
  by (simp add: and_then_def)

lemma for_each_append:
  "for_each body (xs @ ys) fr =
     (case for_each body xs fr of Inl err \<Rightarrow> Inl err | Inr fr' \<Rightarrow> for_each body ys fr')"
  by (induction xs arbitrary: fr) (simp_all split: sum.splits)

lemma extend_w_checked_eq:
  assumes "16 \<le> i" and "i \<le> length (w fr)"
  shows "extend_w_checked i fr = Inr (extend_w i fr)"
proof -
  have i15: "int i - 15 = int (i - 15)" and i2: "int i - 2 = int (i - 2)"
    and i16: "int i - 16 = int (i - 16)" and i7: "int i - 7 = int (i - 7)"
    using assms(1) by simp_all
  have "i - 15 < length (w fr)" "i - 2 < length (w fr)"
    "i - 16 < length (w fr)" "i - 7 < length (w fr)"
    using assms by arith+
  then show ?thesis
    unfolding extend_w_checked_def i15 i2 i16 i7
    by (simp add: subscript_in_range and_then_Inr extend_w_def Let_def)
qed

lemma for_each_extend_w:
  assumes "length (w fr) = m" and "16 \<le> m"
  shows "for_each extend_w_checked [m..<m + k] fr = Inr (fold extend_w [m..<m + k] fr)"
proof (induction k)
  case 0
  show ?case by simp
next
  case (Suc k)
  have len: "length (w (fold extend_w [m..<m + k] fr)) = m + k"
    using fold_extend_w_sched [OF assms, of k] by blast
  have step: "extend_w_checked (m + k) (fold extend_w [m..<m + k] fr)
      = Inr (extend_w (m + k) (fold extend_w [m..<m + k] fr))"
    using assms(2) len by (intro extend_w_checked_eq) simp_all
  have "[m..<m + Suc k] = [m..<m + k] @ [m + k]" by simp
  then show ?case
    by (simp only: for_each_append Suc sum.case for_each.simps step fold_append fold_simps comp_def id_def)
qed

lemma round_step_checked_eq:
  assumes "i < length (K fr)" and "i < length (w fr)"
  shows "round_step_checked i fr = Inr (round_step i fr)"
  using assms
  by (simp add: round_step_checked_def round_step_def subscript_in_range and_then_Inr Let_def)

lemma for_each_round_step:
  assumes "n \<le> length (K fr)" and "n \<le> length (w fr)"
  shows "for_each round_step_checked [0..<n] fr = Inr (fold round_step [0..<n] fr)"
  using assms
proof (induction n)
  case 0
  show ?case by simp
next
  case (Suc n)
  then have ih: "for_each round_step_checked [0..<n] fr = Inr (fold round_step [0..<n] fr)"
    by simp
  have "K (fold round_step [0..<n] fr) = K fr" and "w (fold round_step [0..<n] fr) = w fr"
    using fold_round_step_frame [of "[0..<n]" fr] by simp_all
  with Suc.prems have step: "round_step_checked n (fold round_step [0..<n] fr)
      = Inr (round_step n (fold round_step [0..<n] fr))"
    by (intro round_step_checked_eq) simp_all
  have "[0..<Suc n] = [0..<n] @ [n]" by simp
  then show ?case
    by (simp only: for_each_append ih sum.case for_each.simps step fold_append fold_simps comp_def id_def)
qed

lemma add_to_h_eq:
  assumes "j < length (h fr)"
  shows "add_to_h j v fr = Inr (fr\<lparr>h := (h fr)[j := (h fr ! j + v) AND 0xffffffff]\<rparr>)"
  using assms by (simp add: add_to_h_def subscript_in_range store_item_in_range and_then_Inr)

lemma accumulate_checked_eq:
  assumes "length (h fr) = 8"
  shows "accumulate_checked fr = Inr (accumulate fr)"
  using assms
  by (simp add: accumulate_checked_def accumulate_def add_to_h_eq and_then_Inr Let_def)

lemma load_vars_frame:
  assumes "load_vars fr = Inr fr'"
  shows "K fr' = K fr \<and> w fr' = w fr \<and> h fr' = h fr \<and> length (h fr) = 8"
  using assms unfolding load_vars_def by (auto split: list.splits)

lemma process_chunk_checked_eq:
  assumes "64 \<le> length (K fr)"
  shows "process_chunk_checked cs fr = process_chunk cs fr"
proof -
  define chunk where "chunk = take 64 (drop cs (msg fr))"
  show ?thesis
  proof (cases "unpack_16I chunk")
    case (Inl err)
    then have "message_schedule_checked chunk fr = Inl err" and "message_schedule chunk fr = Inl err"
      by (simp_all add: message_schedule_checked_def message_schedule_def)
    then show ?thesis
      unfolding process_chunk_checked_def process_chunk_def Let_def chunk_def [symmetric]
      by (simp add: and_then_Inl)
  next
    case (Inr ws)
    then have ws: "ws = be_words chunk" and len: "length chunk = 64"
      by (auto simp: unpack_16I_def split: if_splits)
    have w0: "length (w (fr\<lparr>w := ws\<rparr>)) = 16"
      by (simp add: ws be_words_length len)
    define fr0 where "fr0 = fold extend_w [16..<64] (fr\<lparr>w := ws\<rparr>)"
    have r48: "[16..<64] = [16..<16 + 48]" by simp
    have s: "message_schedule chunk fr = Inr fr0"
      unfolding message_schedule_def Inr sum.case fr0_def ..
    have "for_each extend_w_checked [16..<16 + 48] (fr\<lparr>w := ws\<rparr>)
        = Inr (fold extend_w [16..<16 + 48] (fr\<lparr>w := ws\<rparr>))"
      using w0 by (rule for_each_extend_w) simp
    then have sc: "message_schedule_checked chunk fr = Inr fr0"
      unfolding message_schedule_checked_def Inr sum.case fr0_def r48 .
    have "length (w (fold extend_w [16..<16 + 48] (fr\<lparr>w := ws\<rparr>))) = 16 + 48"
      using fold_extend_w_sched [OF w0, of 48] by blast
    then have wl: "length (w fr0) = 64" unfolding fr0_def r48 by simp
    have k0: "K fr0 = K fr"
      unfolding fr0_def using fold_extend_w_frame [of "[16..<64]" "fr\<lparr>w := ws\<rparr>"]
      by (simp del: upt_rec_numeral)
    show ?thesis
    proof (cases "load_vars fr0")
      case (Inl err)
      then show ?thesis
        unfolding process_chunk_checked_def process_chunk_def Let_def chunk_def [symmetric] s sc
        by (simp add: and_then_Inl and_then_Inr)
    next
      case l: (Inr fr1)
      then have f1: "K fr1 = K fr0 \<and> w fr1 = w fr0 \<and> h fr1 = h fr0 \<and> length (h fr0) = 8"
        by (rule load_vars_frame)
      define r where "r = fold round_step [0..<64] fr1"
      have rc: "for_each round_step_checked [0..<64] fr1 = Inr r"
        unfolding r_def using f1 k0 wl assms by (intro for_each_round_step) simp_all
      have "h r = h fr1"
        unfolding r_def using fold_round_step_frame [of "[0..<64]" fr1]
        by (simp del: upt_rec_numeral)
      then have "length (h r) = 8" using f1 by simp
      then have ac: "accumulate_checked r = Inr (accumulate r)"
        by (rule accumulate_checked_eq)
      show ?thesis
        unfolding process_chunk_checked_def process_chunk_def Let_def chunk_def [symmetric] s sc
          and_then_Inr l sum.case rc ac
        by (simp only: r_def)
    qed
  qed
qed

lemma process_chunk_K:
  assumes "process_chunk cs fr = Inr fr'"
  shows "K fr' = K fr"
proof -
  define chunk where "chunk = take 64 (drop cs (msg fr))"
  from assms obtain fr0 where s: "message_schedule chunk fr = Inr fr0"
    unfolding process_chunk_def Let_def chunk_def [symmetric]
    by (cases "message_schedule chunk fr") simp_all
  with assms obtain fr1 where l: "load_vars fr0 = Inr fr1"
    unfolding process_chunk_def Let_def chunk_def [symmetric]
    by (cases "load_vars fr0") simp_all
  from assms s l have f: "fr' = accumulate (fold round_step [0..<64] fr1)"
    unfolding process_chunk_def Let_def chunk_def [symmetric] by simp
  from s have "\<exists>ws. fr0 = fold extend_w [16..<64] (fr\<lparr>w := ws\<rparr>)"
    unfolding message_schedule_def
    by (cases "unpack_16I chunk") (auto simp del: upt_rec_numeral)
  then obtain ws where "fr0 = fold extend_w [16..<64] (fr\<lparr>w := ws\<rparr>)" ..
  then have "K fr0 = K fr"
    using fold_extend_w_frame [of "[16..<64]" "fr\<lparr>w := ws\<rparr>"] by (simp del: upt_rec_numeral)
  moreover from l have "K fr1 = K fr0" using load_vars_frame by blast
  moreover have "K (fold round_step [0..<64] fr1) = K fr1"
    using fold_round_step_frame [of "[0..<64]" fr1] by (simp del: upt_rec_numeral)
  ultimately show ?thesis unfolding f by (simp add: accumulate_frame)
qed

lemma chunk_loop_checked_eq:
  assumes "64 \<le> length (K fr)"
  shows "for_each process_chunk_checked css fr = chunk_loop css fr"
  using assms
proof (induction css arbitrary: fr)
  case Nil
  show ?case by simp
next
  case (Cons cs css)
  then have p: "process_chunk_checked cs fr = process_chunk cs fr"
    by (intro process_chunk_checked_eq)
  show ?case
  proof (cases "process_chunk cs fr")
    case (Inl err)
    with p show ?thesis by simp
  next
    case (Inr fr1)
    then have "K fr1 = K fr" by (rule process_chunk_K)
    with Cons.prems have "64 \<le> length (K fr1)" by simp
    then have "for_each process_chunk_checked css fr1 = chunk_loop css fr1" by (rule Cons.IH)
    with p Inr show ?thesis by simp
  qed
qed

lemma hash_state_checked_eq: "hash_state_checked dat fr = hash_state dat fr"
proof (cases "case dat of Str s \<Rightarrow> encode_utf8 s | Bytes bs \<Rightarrow> Inr bs")
  case (Inl err)
  then show ?thesis
    by (simp add: hash_state_checked_def hash_state_def and_then_Inl)
next
  case (Inr bs)
  define fr0 where "fr0 = fr\<lparr>K := K_table, h := h_init\<rparr>"
  show ?thesis
  proof (cases "padding bs fr0")
    case (Inl err)
    with Inr show ?thesis
      by (simp add: hash_state_checked_def hash_state_def and_then_Inl and_then_Inr fr0_def)
  next
    case p: (Inr fr1)
    then have "K fr1 = K fr0" using padding_Inr by fastforce
    then have "64 \<le> length (K fr1)" by (simp add: fr0_def K_table_def)
    then have "for_each process_chunk_checked (range_step (length (msg fr1)) 64) fr1
        = chunk_loop (range_step (length (msg fr1)) 64) fr1"
      by (rule chunk_loop_checked_eq)
    with Inr p show ?thesis
      by (simp add: hash_state_checked_def hash_state_def and_then_Inr fr0_def)
  qed
qed

lemma sha256_checked_eq: "sha256_checked dat fr = sha256 dat fr"
  by (simp add: sha256_checked_def sha256_impl_checked_def sha256_def sha256_impl_def
      hash_state_checked_eq and_then_def)

lemma process_chunk_checked_no_K:
  "process_chunk_checked 0 (first_chunk_frame\<lparr>K := []\<rparr>) = Inl IndexError"
  by code_simp

text \<open>A text argument whose encoding succeeds is hashed as its encoding.\<close>

lemma sha256_str: "encode_utf8 s = Inr bs \<Longrightarrow> sha256 (Str s) fr = sha256 (Bytes bs) fr"
  by (simp add: sha256_def sha256_impl_def hash_state_def)

subsection \<open>Claims\<close>

text \<open>
  C2, as the code has it: the digest of the empty byte string is the 64-character string
  \<open>e3b0c442 98fc1c14 9afbf4c8 996fb924 27ae41e4 649b934c a495991b 7852b855\<close>, whatever the
  local slots held before the call.  It ends in \<open>b855\<close>, as in the source's own test
  table.
\<close>

theorem sha256_empty:
  "sha256 (Bytes []) fr = Inr ''e3b0c44298fc1c149afbf4c8996fb92427ae41e4649b934ca495991b7852b855''"
  using sha256_empty_frame0 sha256_impl_frame [of "Bytes []" fr frame0] by (simp add: sha256_def)

text \<open>
  C2, as the specification's table prints it: the 63-character string that ends in
  \<open>b85\<close> is not what the call on the empty byte string returns.
\<close>

theorem sha256_empty_not_63_chars:
  "sha256 (Bytes []) frame0 \<noteq> Inr ''e3b0c44298fc1c149afbf4c8996fb92427ae41e4649b934ca495991b7852b85''"
  using sha256_empty_frame0 by simp

text \<open>
  C3: the digest of the three ASCII bytes of "abc" is
  \<open>ba7816bf 8f01cfea 414140de 5dae2223 b00361a3 96177a9c b410ff61 f20015ad\<close>.
\<close>

theorem sha256_abc:
  "sha256 (Bytes [0x61, 0x62, 0x63]) fr
     = Inr ''ba7816bf8f01cfea414140de5dae2223b00361a396177a9cb410ff61f20015ad''"
  using sha256_abc_frame0 sha256_impl_frame [of "Bytes [0x61, 0x62, 0x63]" fr frame0]
  by (simp add: sha256_def)

text \<open>
  C4: for an input of bit length below \<open>2^64\<close> the padded message is the input, the byte
  \<open>0x80\<close>, then \<open>k\<close> zero bytes where \<open>k\<close> is the least number that brings the
  bit length to 448 modulo 512, then eight bytes that denote the input's bit length,
  most significant byte first.
\<close>

theorem padded_message_layout:
  assumes "int (length bs) * 8 < 2 ^ 64"
  shows "\<exists>fr' k lenb. padding bs fr = Inr fr'
           \<and> msg fr' = bs @ [0x80] @ replicate k 0x00 @ lenb
           \<and> ((length bs + 1 + k) * 8) mod 512 = 448
           \<and> (\<forall>j<k. ((length bs + 1 + j) * 8) mod 512 \<noteq> 448)
           \<and> length lenb = 8
           \<and> be_decode lenb = int (length bs) * 8"
proof -
  obtain lenb where q: "pack_Q (int (length bs) * 8) = Inr lenb"
    and l: "length lenb = 8" and v: "be_decode lenb = int (length bs) * 8"
    using pack_Q_decode [of "int (length bs) * 8"] assms by auto
  define k where "k = pad_dist (Suc (length bs))"
  define fr' where "fr' = fr\<lparr>msg_len := int (length bs) * 8,
     msg := bs @ [0x80] @ replicate k 0x00 @ lenb\<rparr>"
  have p: "padding bs fr = Inr fr'"
    unfolding fr'_def k_def using q by (rule padding_eq)
  have m: "msg fr' = bs @ [0x80] @ replicate k 0x00 @ lenb"
    by (simp add: fr'_def)
  have "(Suc (length bs) + k) mod 64 = 56"
    unfolding k_def by (rule pad_dist_hit)
  then have "(length bs + 1 + k) mod 64 = 56" by simp
  then have hit: "((length bs + 1 + k) * 8) mod 512 = 448"
    by (simp only: pad_cond)
  have least: "\<forall>j<k. ((length bs + 1 + j) * 8) mod 512 \<noteq> 448"
  proof (intro allI impI)
    fix j
    assume "j < k"
    then have "(Suc (length bs) + j) mod 64 \<noteq> 56"
      unfolding k_def by (rule pad_dist_min)
    then have "(length bs + 1 + j) mod 64 \<noteq> 56" by simp
    then show "((length bs + 1 + j) * 8) mod 512 \<noteq> 448"
      unfolding pad_cond .
  qed
  from p m hit least l v show ?thesis by blast
qed

text \<open>
  The layout at a 56-byte input, where 63 zero bytes are needed and a second block
  holds the length field.
\<close>

theorem padded_message_layout_witness:
  "int (length (replicate 56 (0x61::byte))) * 8 < 2 ^ 64
   \<and> (\<exists>fr' k lenb. padding (replicate 56 0x61) frame0 = Inr fr'
           \<and> msg fr' = replicate 56 0x61 @ [0x80] @ replicate k 0x00 @ lenb
           \<and> ((length (replicate 56 (0x61::byte)) + 1 + k) * 8) mod 512 = 448
           \<and> (\<forall>j<k. ((length (replicate 56 (0x61::byte)) + 1 + j) * 8) mod 512 \<noteq> 448)
           \<and> length lenb = 8
           \<and> be_decode lenb = int (length (replicate 56 (0x61::byte))) * 8)"
proof -
  have small: "int (length (replicate 56 (0x61::byte))) * 8 < 2 ^ 64" by simp
  from small padded_message_layout [OF small, of frame0] show ?thesis by blast
qed

text \<open>
  C6: whenever the padding produces a message, its bit length is a positive multiple of
  512 and at least \<open>L + 65\<close>, where \<open>L\<close> is the bit length of the input; and it produces
  one for every input with \<open>L < 2^64\<close>.
\<close>

theorem padded_length_multiple:
  "(\<forall>fr'. padding bs fr = Inr fr' \<longrightarrow>
        (length (msg fr') * 8) mod 512 = 0
      \<and> 0 < length (msg fr') * 8
      \<and> length bs * 8 + 65 \<le> length (msg fr') * 8)
   \<and> (int (length bs) * 8 < 2 ^ 64 \<longrightarrow> (\<exists>fr'. padding bs fr = Inr fr'))"
proof (intro conjI allI impI)
  fix fr'
  assume p: "padding bs fr = Inr fr'"
  then obtain lenb where l: "length lenb = 8"
    and f: "fr' = fr\<lparr>msg_len := int (length bs) * 8,
                 msg := bs @ [0x80] @ replicate (pad_dist (Suc (length bs))) 0x00 @ lenb\<rparr>"
    using padding_Inr by blast
  define m where "m = bs @ [0x80] @ replicate (pad_dist (Suc (length bs))) 0x00 @ lenb"
  have mm: "msg fr' = m" by (simp add: f m_def)
  have "length m mod 64 = 0"
    unfolding m_def using l by (rule padded_length_mod)
  then have "(length m * 8) mod 512 = 0" by (rule mod64_512)
  then show "(length (msg fr') * 8) mod 512 = 0" by (simp only: mm)
  have "length bs + 9 \<le> length m" using l by (simp add: m_def)
  then have "0 < length m * 8" and "length bs * 8 + 65 \<le> length m * 8" by arith+
  then show "0 < length (msg fr') * 8" and "length bs * 8 + 65 \<le> length (msg fr') * 8"
    by (simp_all only: mm)
next
  assume "int (length bs) * 8 < 2 ^ 64"
  then obtain lenb where "pack_Q (int (length bs) * 8) = Inr lenb"
    using pack_Q_decode [of "int (length bs) * 8"] by auto
  then show "\<exists>fr'. padding bs fr = Inr fr'" by (simp add: padding_eq)
qed

text \<open>The padding of the three bytes of "abc": 52 zero bytes and the length field \<open>0x18\<close>.\<close>

theorem padded_length_multiple_witness:
  "padding [0x61, 0x62, 0x63] frame0
     = Inr (frame0\<lparr>msg_len := 24,
              msg := [0x61, 0x62, 0x63, 0x80] @ replicate 52 0x00 @ [0, 0, 0, 0, 0, 0, 0, 0x18]\<rparr>)
   \<and> (length (msg (frame0\<lparr>msg_len := 24,
              msg := [0x61, 0x62, 0x63, 0x80] @ replicate 52 0x00 @ [0, 0, 0, 0, 0, 0, 0, 0x18]\<rparr>)) * 8)
         mod 512 = 0
   \<and> 0 < length (msg (frame0\<lparr>msg_len := 24,
              msg := [0x61, 0x62, 0x63, 0x80] @ replicate 52 0x00 @ [0, 0, 0, 0, 0, 0, 0, 0x18]\<rparr>)) * 8
   \<and> length [0x61, 0x62, 0x63 :: byte] * 8 + 65
       \<le> length (msg (frame0\<lparr>msg_len := 24,
              msg := [0x61, 0x62, 0x63, 0x80] @ replicate 52 0x00 @ [0, 0, 0, 0, 0, 0, 0, 0x18]\<rparr>)) * 8
   \<and> int (length [0x61, 0x62, 0x63 :: byte]) * 8 < 2 ^ 64
   \<and> (\<exists>fr'. padding [0x61, 0x62, 0x63] frame0 = Inr fr')"
proof -
  have q: "pack_Q (int (length [0x61, 0x62, 0x63 :: byte]) * 8) = Inr [0, 0, 0, 0, 0, 0, 0, 0x18]"
    by (simp add: pack_Q_def)
  have d: "pad_dist (Suc (length [0x61, 0x62, 0x63 :: byte])) = 52"
    by (simp add: pad_dist_def)
  have p: "padding [0x61, 0x62, 0x63] frame0
     = Inr (frame0\<lparr>msg_len := 24,
              msg := [0x61, 0x62, 0x63, 0x80] @ replicate 52 0x00 @ [0, 0, 0, 0, 0, 0, 0, 0x18]\<rparr>)"
    using padding_eq [OF q, of frame0] unfolding d by simp
  have small: "int (length [0x61, 0x62, 0x63 :: byte]) * 8 < 2 ^ 64" by simp
  from p small padded_length_multiple [of "[0x61, 0x62, 0x63]" frame0] show ?thesis by blast
qed

text \<open>
  C9: the string (or the exception) that a call produces is the same whatever the local
  slots held before the call: it depends on the argument only, so two calls on the same
  bytes give identical results.
\<close>

theorem sha256_deterministic: "sha256 dat fr1 = sha256 dat fr2"
  unfolding sha256_def by (rule sha256_impl_frame)

text \<open>
  C1, as the code has it: for an input of bit length below \<open>2^64\<close> the call returns a
  character string of length 64, the rendering with two lowercase hexadecimal digits per
  byte of the 32-byte digest (the eight final state words, big-endian); it does not return
  the 32 bytes themselves.
\<close>

theorem sha256_hex_of_digest_bytes:
  assumes "int (length bs) * 8 < 2 ^ 64"
  shows "\<exists>fr'. hash_state (Bytes bs) fr = Inr fr'
           \<and> length (digest_bytes (h fr')) = 32
           \<and> sha256 (Bytes bs) fr = Inr (concat (map hex_byte (digest_bytes (h fr'))))
           \<and> length (concat (map hex_byte (digest_bytes (h fr')))) = 64"
proof -
  obtain fr' where hs: "hash_state (Bytes bs) fr = Inr fr'"
    and l: "length (h fr') = 8" and r: "words32 (h fr')"
    using hash_state_ok [OF assms] by blast
  have "sha256 (Bytes bs) fr = Inr (concat (map fmt_08x (h fr')))"
    using hs by (simp add: sha256_def sha256_impl_def)
  then have "sha256 (Bytes bs) fr = Inr (concat (map hex8 (h fr')))"
    using r by (simp only: map_fmt_08x)
  then have s: "sha256 (Bytes bs) fr = Inr (concat (map hex_byte (digest_bytes (h fr'))))"
    by (simp only: concat_hex8_bytes)
  have b: "length (digest_bytes (h fr')) = 32"
    using l by (simp add: digest_bytes_length)
  have "length (concat (map hex8 (h fr'))) = 64"
    using l by (simp add: concat_hex8_length)
  then have n: "length (concat (map hex_byte (digest_bytes (h fr')))) = 64"
    by (simp only: concat_hex8_bytes)
  from hs b s n show ?thesis by blast
qed

theorem sha256_hex_of_digest_bytes_witness:
  "int (length ([] :: byte list)) * 8 < 2 ^ 64
   \<and> (\<exists>fr'. hash_state (Bytes []) frame0 = Inr fr'
           \<and> length (digest_bytes (h fr')) = 32
           \<and> sha256 (Bytes []) frame0 = Inr (concat (map hex_byte (digest_bytes (h fr'))))
           \<and> length (concat (map hex_byte (digest_bytes (h fr')))) = 64)"
proof -
  have small: "int (length ([] :: byte list)) * 8 < 2 ^ 64" by simp
  from small sha256_hex_of_digest_bytes [OF small, of frame0] show ?thesis by blast
qed

text \<open>
  C1, as stated: the length of the result is 32.  On the empty byte string the result has
  64 elements, not 32.
\<close>

theorem sha256_output_length_counterexample:
  "map_sum id length (sha256 (Bytes []) frame0) = Inr 64
   \<and> map_sum id length (sha256 (Bytes []) frame0) \<noteq> Inr 32"
  using sha256_empty_frame0 by simp

text \<open>
  C5: for a chunk of 64 bytes the schedule has 64 words, each a 32-bit unsigned value;
  word \<open>j < 16\<close> is the big-endian value of bytes \<open>4j .. 4j+3\<close> of the chunk, and for
  \<open>16 \<le> i < 64\<close> word \<open>i\<close> is
  \<open>(w[i-16] + \<sigma>0(w[i-15]) + w[i-7] + \<sigma>1(w[i-2])) mod 2^32\<close>, with \<open>\<sigma>0\<close>,
  \<open>\<sigma>1\<close> built from the circular right rotation of 32-bit words.
\<close>

theorem message_schedule_recurrence:
  assumes "length chunk = 64"
  shows "\<exists>fr'. message_schedule chunk fr = Inr fr'
           \<and> length (w fr') = 64
           \<and> (\<forall>j<64. 0 \<le> w fr' ! j \<and> w fr' ! j < 2 ^ 32)
           \<and> (\<forall>j<16. w fr' ! j = be_decode (take 4 (drop (4 * j) chunk)))
           \<and> (\<forall>i. 16 \<le> i \<and> i < 64 \<longrightarrow>
                 w fr' ! i = (w fr' ! (i - 16) + spec_sigma0 (w fr' ! (i - 15))
                              + w fr' ! (i - 7) + spec_sigma1 (w fr' ! (i - 2))) mod 2 ^ 32)"
proof -
  define fr0 where "fr0 = fr\<lparr>w := be_words chunk\<rparr>"
  define fr' where "fr' = fold extend_w [16..<64] fr0"
  define ws where "ws = w fr'"
  have s: "message_schedule chunk fr = Inr fr'"
    unfolding fr'_def fr0_def using assms by (rule message_schedule_ok)
  have w0: "length (w fr0) = 16"
    using assms by (simp add: fr0_def be_words_length)
  have "[16..<64] = [16..<16 + 48]" by simp
  then have "fr' = fold extend_w [16..<16 + 48] fr0" unfolding fr'_def by (simp only:)
  then have inv: "length ws = 16 + 48 \<and> take 16 ws = w fr0
      \<and> (\<forall>i. 16 \<le> i \<and> i < 16 + 48 \<longrightarrow> ws ! i = schedule_word ws i)"
    unfolding ws_def using fold_extend_w_sched [OF w0, of 48] by (simp only:) simp
  then have len: "length ws = 64" by simp
  from inv have pre: "take 16 ws = be_words chunk" by (simp add: fr0_def)
  from inv have rec: "\<forall>i. 16 \<le> i \<and> i < 64 \<longrightarrow> ws ! i = schedule_word ws i" by simp
  have first: "ws ! j = be_words chunk ! j" if "j < 16" for j
  proof -
    from that have "take 16 ws ! j = ws ! j" by simp
    with pre show ?thesis by simp
  qed
  have range: "0 \<le> ws ! j \<and> ws ! j < 2 ^ 32" if "j < 64" for j
  proof (cases "j < 16")
    case True
    have "j < length (be_words chunk)" using True assms by (simp add: be_words_length)
    then have "be_words chunk ! j \<in> set (be_words chunk)" by (rule nth_mem)
    with be_words_range [of chunk] have "0 \<le> be_words chunk ! j \<and> be_words chunk ! j < 2 ^ 32"
      unfolding words32_def by blast
    with first [OF True] show ?thesis by simp
  next
    case False
    with that rec have "ws ! j = schedule_word ws j" by simp
    with schedule_word_range [of ws j] show ?thesis by simp
  qed
  have head: "\<forall>j<16. ws ! j = be_decode (take 4 (drop (4 * j) chunk))"
  proof (intro allI impI)
    fix j :: nat
    assume j: "j < 16"
    then have "4 * j + 4 \<le> length chunk" using assms by simp
    then have "be_words chunk ! j = be_decode (take 4 (drop (4 * j) chunk))"
      by (rule be_words_nth)
    with first [OF j] show "ws ! j = be_decode (take 4 (drop (4 * j) chunk))" by simp
  qed
  have tail: "\<forall>i. 16 \<le> i \<and> i < 64 \<longrightarrow>
      ws ! i = (ws ! (i - 16) + spec_sigma0 (ws ! (i - 15))
                + ws ! (i - 7) + spec_sigma1 (ws ! (i - 2))) mod 2 ^ 32"
  proof (intro allI impI)
    fix i :: nat
    assume i: "16 \<le> i \<and> i < 64"
    then have "i - 15 < 64" and "i - 2 < 64" by arith+
    then have "0 \<le> ws ! (i - 15) \<and> ws ! (i - 15) < 2 ^ 32"
      and "0 \<le> ws ! (i - 2) \<and> ws ! (i - 2) < 2 ^ 32"
      using range by blast+
    then have "schedule_word ws i
      = (ws ! (i - 16) + spec_sigma0 (ws ! (i - 15)) + ws ! (i - 7) + spec_sigma1 (ws ! (i - 2))) mod 2 ^ 32"
      by (rule schedule_word_spec)
    with i rec show "ws ! i = (ws ! (i - 16) + spec_sigma0 (ws ! (i - 15))
                + ws ! (i - 7) + spec_sigma1 (ws ! (i - 2))) mod 2 ^ 32"
      by simp
  qed
  from s len range head tail show ?thesis unfolding ws_def by blast
qed

theorem message_schedule_recurrence_witness:
  "length (0x80 # replicate 63 (0x00::byte)) = 64
   \<and> (\<exists>fr'. message_schedule (0x80 # replicate 63 0x00) frame0 = Inr fr'
           \<and> length (w fr') = 64
           \<and> (\<forall>j<64. 0 \<le> w fr' ! j \<and> w fr' ! j < 2 ^ 32)
           \<and> (\<forall>j<16. w fr' ! j = be_decode (take 4 (drop (4 * j) (0x80 # replicate 63 0x00))))
           \<and> (\<forall>i. 16 \<le> i \<and> i < 64 \<longrightarrow>
                 w fr' ! i = (w fr' ! (i - 16) + spec_sigma0 (w fr' ! (i - 15))
                              + w fr' ! (i - 7) + spec_sigma1 (w fr' ! (i - 2))) mod 2 ^ 32))"
proof -
  have len: "length (0x80 # replicate 63 (0x00::byte)) = 64" by simp
  from len message_schedule_recurrence [OF len, of frame0] show ?thesis by blast
qed

text \<open>
  C7: while a chunk is processed, the eight working variables start as copies of the state
  words; after any number \<open>n \<le> 64\<close> of rounds the state list \<open>h\<close> and the list \<open>K\<close>
  are what they were before the chunk; the chunk leaves state word \<open>j\<close> at (its value
  before the chunk + working variable \<open>j\<close> after round 64) \<open>mod 2^32\<close>, and leaves
  \<open>K\<close> as it was.
\<close>

theorem state_accumulation:
  assumes "length (h fr) = 8" and "cs + 64 \<le> length (msg fr)"
  shows "\<exists>fr0 fr1 fr2.
           message_schedule (take 64 (drop cs (msg fr))) fr = Inr fr0
         \<and> load_vars fr0 = Inr fr1
         \<and> [a fr1, b fr1, c fr1, d fr1, e fr1, f fr1, g fr1, h_val fr1] = h fr
         \<and> h fr0 = h fr \<and> K fr0 = K fr
         \<and> (\<forall>n\<le>64. h (fold round_step [0..<n] fr1) = h fr \<and> K (fold round_step [0..<n] fr1) = K fr)
         \<and> process_chunk cs fr = Inr fr2
         \<and> h fr2 = map2 (\<lambda>x v. (x + v) mod 2 ^ 32) (h fr)
                      (let r = fold round_step [0..<64] fr1
                       in [a r, b r, c r, d r, e r, f r, g r, h_val r])
         \<and> K fr2 = K fr"
proof -
  obtain x0 x1 x2 x3 x4 x5 x6 x7 where hx: "h fr = [x0, x1, x2, x3, x4, x5, x6, x7]"
    using assms(1) by (rule list8)
  define chunk where "chunk = take 64 (drop cs (msg fr))"
  have len: "length chunk = 64" using assms(2) by (simp add: chunk_def)
  define fr0 where "fr0 = fold extend_w [16..<64] (fr\<lparr>w := be_words chunk\<rparr>)"
  have s: "message_schedule chunk fr = Inr fr0"
    unfolding fr0_def using len by (rule message_schedule_ok)
  have f0: "K fr0 = K fr \<and> h fr0 = h fr"
    unfolding fr0_def using fold_extend_w_frame [of "[16..<64]" "fr\<lparr>w := be_words chunk\<rparr>"]
    by (simp del: upt_rec_numeral)
  define fr1 where
    "fr1 = fr0\<lparr>a := x0, b := x1, c := x2, d := x3, e := x4, f := x5, g := x6, h_val := x7\<rparr>"
  have l: "load_vars fr0 = Inr fr1"
    unfolding fr1_def using f0 hx by (intro load_vars_eq) simp
  have copies: "[a fr1, b fr1, c fr1, d fr1, e fr1, f fr1, g fr1, h_val fr1] = h fr"
    by (simp add: fr1_def hx)
  have f1: "K fr1 = K fr \<and> h fr1 = h fr"
    using f0 by (simp add: fr1_def)
  have during: "\<forall>n\<le>64. h (fold round_step [0..<n] fr1) = h fr \<and> K (fold round_step [0..<n] fr1) = K fr"
    using fold_round_step_frame [of _ fr1] f1 by simp
  define r where "r = fold round_step [0..<64] fr1"
  have fr: "K r = K fr \<and> h r = h fr"
    unfolding r_def using fold_round_step_frame [of "[0..<64]" fr1] f1
    by (simp del: upt_rec_numeral)
  have p: "process_chunk cs fr = Inr (accumulate r)"
    unfolding process_chunk_def Let_def chunk_def [symmetric] s sum.case l r_def ..
  have "h (accumulate r) =
     [(x0 + a r) AND 0xffffffff, (x1 + b r) AND 0xffffffff,
      (x2 + c r) AND 0xffffffff, (x3 + d r) AND 0xffffffff,
      (x4 + e r) AND 0xffffffff, (x5 + f r) AND 0xffffffff,
      (x6 + g r) AND 0xffffffff, (x7 + h_val r) AND 0xffffffff]"
    using fr hx by (intro accumulate_h) simp
  then have acc: "h (accumulate r) = map2 (\<lambda>x v. (x + v) mod 2 ^ 32) (h fr)
       (let r = fold round_step [0..<64] fr1 in [a r, b r, c r, d r, e r, f r, g r, h_val r])"
    unfolding Let_def r_def [symmetric] by (simp add: hx and_mask32)
  have kk: "K (accumulate r) = K fr" using fr by (simp add: accumulate_frame)
  from s l copies f0 during p acc kk show ?thesis
    unfolding chunk_def by blast
qed

text \<open>The first chunk of the empty input: the state is \<open>h_init\<close>, the message one block.\<close>

theorem state_accumulation_witness:
  "length (h first_chunk_frame) = 8
   \<and> 0 + 64 \<le> length (msg first_chunk_frame)
   \<and> (\<exists>fr0 fr1 fr2.
           message_schedule (take 64 (drop 0 (msg first_chunk_frame))) first_chunk_frame = Inr fr0
         \<and> load_vars fr0 = Inr fr1
         \<and> [a fr1, b fr1, c fr1, d fr1, e fr1, f fr1, g fr1, h_val fr1] = h first_chunk_frame
         \<and> h fr0 = h first_chunk_frame \<and> K fr0 = K first_chunk_frame
         \<and> (\<forall>n\<le>64. h (fold round_step [0..<n] fr1) = h first_chunk_frame
                    \<and> K (fold round_step [0..<n] fr1) = K first_chunk_frame)
         \<and> process_chunk 0 first_chunk_frame = Inr fr2
         \<and> h fr2 = map2 (\<lambda>x v. (x + v) mod 2 ^ 32) (h first_chunk_frame)
                      (let r = fold round_step [0..<64] fr1
                       in [a r, b r, c r, d r, e r, f r, g r, h_val r])
         \<and> K fr2 = K first_chunk_frame)"
proof -
  have p1: "length (h first_chunk_frame) = 8"
    by (simp add: first_chunk_frame_def h_init_def)
  have p2: "0 + 64 \<le> length (msg first_chunk_frame)"
    by (simp add: first_chunk_frame_def)
  from p1 p2 state_accumulation [OF p1 p2] show ?thesis by blast
qed

text \<open>
  C8: for every byte string of bit length below \<open>2^64\<close>, the empty one included, the call
  returns a string: no exception is raised, neither by \<^verbatim>\<open>struct.pack\<close>,
  \<^verbatim>\<open>struct.unpack\<close> or the unpacking assignment of line 72, nor by any subscript
  \<^verbatim>\<open>w[...]\<close>, \<^verbatim>\<open>K[i]\<close> or \<^verbatim>\<open>h[j]\<close>.  It is stated of the body with every subscript
  checked.  (At \<open>2^64\<close> bits and beyond, \<^verbatim>\<open>struct.pack\<close> raises: lemmas
  \<open>sha256_too_long\<close> and \<open>sha256_checked_eq\<close>.)
\<close>

theorem sha256_checked_total:
  assumes "int (length bs) * 8 < 2 ^ 64"
  shows "\<exists>digest. sha256_checked (Bytes bs) fr = Inr digest"
proof -
  obtain fr' where "hash_state (Bytes bs) fr = Inr fr'"
    using hash_state_ok [OF assms] by blast
  then have "hash_state_checked (Bytes bs) fr = Inr fr'"
    by (simp only: hash_state_checked_eq)
  then show ?thesis
    by (simp add: sha256_checked_def sha256_impl_checked_def and_then_Inr)
qed

theorem sha256_checked_total_witness:
  "int (length ([] :: byte list)) * 8 < 2 ^ 64
   \<and> (\<exists>digest. sha256_checked (Bytes []) frame0 = Inr digest)"
proof -
  have small: "int (length ([] :: byte list)) * 8 < 2 ^ 64" by simp
  from small sha256_checked_total [OF small, of frame0] show ?thesis by blast
qed

text \<open>
  C10, as the code has it: whenever the call returns, for any argument (bytes or text),
  the result is the eight final state words, each a 32-bit value rendered as eight
  lowercase hexadecimal digits, concatenated: a string of 64 characters, all of them among
  \<open>0123456789abcdef\<close>, not a sequence of 32 bytes; and the call returns for every
  argument whose bytes (the argument itself, or the UTF-8 encoding of a text) have a bit
  length below \<open>2^64\<close>.
\<close>

theorem sha256_hex_digest:
  "(\<forall>digest. sha256 dat fr = Inr digest \<longrightarrow>
      (\<exists>fr'. hash_state dat fr = Inr fr' \<and> length (h fr') = 8 \<and> words32 (h fr')
           \<and> digest = concat (map hex8 (h fr'))
           \<and> length digest = 64
           \<and> set digest \<subseteq> set ''0123456789abcdef''))
   \<and> (\<forall>content. (case dat of Str s \<Rightarrow> encode_utf8 s | Bytes bs \<Rightarrow> Inr bs) = Inr content
           \<and> int (length content) * 8 < 2 ^ 64 \<longrightarrow>
         (\<exists>digest. sha256 dat fr = Inr digest))"
proof (intro conjI allI impI)
  fix digest
  assume r: "sha256 dat fr = Inr digest"
  then obtain fr' where hs: "hash_state dat fr = Inr fr'"
    unfolding sha256_def sha256_impl_def by (cases "hash_state dat fr") simp_all
  then have l: "length (h fr') = 8" and w: "words32 (h fr')"
    using hash_state_Inr by blast+
  from r hs have "digest = concat (map fmt_08x (h fr'))"
    by (simp add: sha256_def sha256_impl_def)
  then have d: "digest = concat (map hex8 (h fr'))"
    using w by (simp only: map_fmt_08x)
  have n: "length digest = 64"
    unfolding d using l by (simp add: concat_hex8_length)
  have s: "set digest \<subseteq> set ''0123456789abcdef''"
    unfolding d using concat_hex8_chars [of "h fr'"] unfolding hex_alphabet_def .
  from hs l w d n s
  show "\<exists>fr'. hash_state dat fr = Inr fr' \<and> length (h fr') = 8 \<and> words32 (h fr')
           \<and> digest = concat (map hex8 (h fr'))
           \<and> length digest = 64
           \<and> set digest \<subseteq> set ''0123456789abcdef''"
    by blast
next
  fix content
  assume a: "(case dat of Str s \<Rightarrow> encode_utf8 s | Bytes bs \<Rightarrow> Inr bs) = Inr content
           \<and> int (length content) * 8 < 2 ^ 64"
  then have "hash_state dat fr = hash_state (Bytes content) fr"
    by (simp add: hash_state_def)
  moreover obtain fr' where "hash_state (Bytes content) fr = Inr fr'"
    using a hash_state_ok [of content fr] by blast
  ultimately show "\<exists>digest. sha256 dat fr = Inr digest"
    by (simp add: sha256_def sha256_impl_def)
qed

text \<open>The text "abc": its UTF-8 encoding is the three bytes of C3.\<close>

theorem sha256_hex_digest_witness:
  "sha256 (Str [0x61, 0x62, 0x63]) frame0
     = Inr ''ba7816bf8f01cfea414140de5dae2223b00361a396177a9cb410ff61f20015ad''
   \<and> (\<exists>fr'. hash_state (Str [0x61, 0x62, 0x63]) frame0 = Inr fr' \<and> length (h fr') = 8
           \<and> words32 (h fr')
           \<and> ''ba7816bf8f01cfea414140de5dae2223b00361a396177a9cb410ff61f20015ad''
               = concat (map hex8 (h fr'))
           \<and> length ''ba7816bf8f01cfea414140de5dae2223b00361a396177a9cb410ff61f20015ad'' = 64
           \<and> set ''ba7816bf8f01cfea414140de5dae2223b00361a396177a9cb410ff61f20015ad''
               \<subseteq> set ''0123456789abcdef'')
   \<and> (case Str [0x61, 0x62, 0x63] of Str s \<Rightarrow> encode_utf8 s | Bytes bs \<Rightarrow> Inr bs)
       = Inr [0x61, 0x62, 0x63]
   \<and> int (length [0x61, 0x62, 0x63 :: byte]) * 8 < 2 ^ 64
   \<and> (\<exists>digest. sha256 (Str [0x61, 0x62, 0x63]) frame0 = Inr digest)"
proof -
  have enc: "encode_utf8 [0x61, 0x62, 0x63] = Inr [0x61, 0x62, 0x63]" by simp
  then have c: "(case Str [0x61, 0x62, 0x63] of Str s \<Rightarrow> encode_utf8 s | Bytes bs \<Rightarrow> Inr bs)
       = Inr [0x61, 0x62, 0x63]"
    by simp
  have "sha256 (Str [0x61, 0x62, 0x63]) frame0 = sha256 (Bytes [0x61, 0x62, 0x63]) frame0"
    using enc by (rule sha256_str)
  then have r: "sha256 (Str [0x61, 0x62, 0x63]) frame0
     = Inr ''ba7816bf8f01cfea414140de5dae2223b00361a396177a9cb410ff61f20015ad''"
    by (simp only: sha256_abc_frame0)
  have small: "int (length [0x61, 0x62, 0x63 :: byte]) * 8 < 2 ^ 64" by simp
  from r c small sha256_hex_digest [of "Str [0x61, 0x62, 0x63]" frame0] show ?thesis by blast
qed

text \<open>
  C10, as stated: for every input the call returns such a string.  On the text of the
  two code points U+0061 and U+DFFF, a lone surrogate, line 44 raises and nothing is
  returned.
\<close>

theorem sha256_lone_surrogate_counterexample:
  "sha256 (Str [0x61, 0xDFFF]) frame0 = Inl UnicodeEncodeError"
  by (simp add: sha256_def sha256_impl_def hash_state_def)

end
